theory Spec2Isabelle
  imports Main "HOL-Library.Word" "HOL-Library.Monad_Syntax" "HOL-Library.Multiset"
begin

unbundle bit_operations_syntax

section \<open>LZ codec (core/lz.go)\<close>

text \<open>
  Bytes are 8-bit words. Go's \<^verbatim>\<open>int\<close> indices are modelled as \<^typ>\<open>int\<close>: every index the
  codec computes is bounded by the length of a slice, so no 64-bit wrap-around can occur.
  A slice access outside \<open>[0, len)\<close> panics in Go; \<open>at\<close> returns \<open>None\<close> there, and
  the option monad propagates the panic.
\<close>

type_synonym byte = "8 word"

definition at :: "'a list \<Rightarrow> int \<Rightarrow> 'a option" where
  "at xs i = (if 0 \<le> i \<and> i < int (length xs) then Some (xs ! nat i) else None)"

definition lzWindowSize :: int where "lzWindowSize = 65535"
definition lzMinMatch :: int where "lzMinMatch = 4"
definition lzMaxMatch :: int where "lzMaxMatch = 255"
definition hashBits :: nat where "hashBits = 14"
definition hashSize :: nat where "hashSize = 2 ^ hashBits"

text \<open>Lines 39-40: the 32-bit key of four bytes, multiplied and shifted down to 14 bits.\<close>

definition lzHash :: "byte \<Rightarrow> byte \<Rightarrow> byte \<Rightarrow> byte \<Rightarrow> 32 word" where
  "lzHash b0 b1 b2 b3 =
     (let h = push_bit 24 (ucast b0) XOR push_bit 16 (ucast b1) XOR push_bit 8 (ucast b2) XOR ucast b3
      in drop_bit (32 - hashBits) (h * 0x1e35a7bd))"

text \<open>
  A token as the encoder emits it: the arguments of the two \<^verbatim>\<open>append\<close> calls.
  \<open>emit\<close> gives the bytes appended to \<^verbatim>\<open>out\<close>; \<^verbatim>\<open>byte(x)\<close> truncates to 8 bits and
  \<^verbatim>\<open>>>\<close> on a Go \<^verbatim>\<open>int\<close> is the arithmetic shift.
\<close>

datatype token = Literal byte | Match int int

fun emit :: "token \<Rightarrow> byte list" where
  "emit (Literal b) = [0x00, b]"
| "emit (Match offset matchLen) =
     [0x01, word_of_int (offset AND 0xFF), word_of_int (drop_bit 8 offset), word_of_int matchLen]"

text \<open>\<^verbatim>\<open>input[a] == input[b]\<close>, with both reads checked.\<close>

definition eqAt :: "byte list \<Rightarrow> int \<Rightarrow> int \<Rightarrow> bool option" where
  "eqAt input a b = do { x \<leftarrow> at input a; y \<leftarrow> at input b; Some (x = y) }"

text \<open>Lines 49-52: the four comparisons, joined by the short-circuiting \<^verbatim>\<open>&&\<close>.\<close>

definition match4 :: "byte list \<Rightarrow> int \<Rightarrow> int \<Rightarrow> bool option" where
  "match4 input candidate i = do {
     e0 \<leftarrow> eqAt input candidate i;
     if \<not> e0 then Some False else do {
       e1 \<leftarrow> eqAt input (candidate + 1) (i + 1);
       if \<not> e1 then Some False else do {
         e2 \<leftarrow> eqAt input (candidate + 2) (i + 2);
         if \<not> e2 then Some False else eqAt input (candidate + 3) (i + 3)
       }
     }
   }"

text \<open>Lines 55-60: the loop that extends a match; it returns the final \<^verbatim>\<open>matchLen\<close>.\<close>

function extendMatch :: "byte list \<Rightarrow> int \<Rightarrow> int \<Rightarrow> int \<Rightarrow> int option" where
  "extendMatch input candidate i matchLen =
     (if i + matchLen < int (length input) \<and> candidate + matchLen < int (length input) \<and>
         matchLen < lzMaxMatch
      then do {
        e \<leftarrow> eqAt input (candidate + matchLen) (i + matchLen);
        if e then extendMatch input candidate i (matchLen + 1) else Some matchLen
      }
      else Some matchLen)"
  by pat_completeness auto
termination
  by (relation "measure (\<lambda>(input, candidate, i, matchLen). nat (lzMaxMatch - matchLen))") auto

declare extendMatch.simps [simp del]

lemma extendMatch_ge: "extendMatch input candidate i m = Some r \<Longrightarrow> m \<le> r"
proof (induction input candidate i m rule: extendMatch.induct)
  case (1 input candidate i matchLen)
  show ?case
  proof (cases "i + matchLen < int (length input) \<and> candidate + matchLen < int (length input) \<and>
         matchLen < lzMaxMatch")
    case True
    with "1.prems" obtain e where e: "eqAt input (candidate + matchLen) (i + matchLen) = Some e"
      and r: "(if e then extendMatch input candidate i (matchLen + 1) else Some matchLen) = Some r"
      by (subst (asm) extendMatch.simps) (auto split: bind_splits)
    show ?thesis
    proof (cases e)
      case True
      with r "1.IH" [OF \<open>i + matchLen < int (length input) \<and> _\<close> e] show ?thesis by simp
    next
      case False
      with r show ?thesis by simp
    qed
  next
    case False
    with "1.prems" show ?thesis by (subst (asm) extendMatch.simps) simp
  qed
qed

text \<open>
  Lines 31-74: the main loop. \<open>table\<close>, \<open>i\<close> and \<open>out\<close> are the source's variables.
  \<open>toks\<close> is a ghost variable: it records each token at the moment its bytes are appended,
  and nothing is ever read from it.
\<close>

function lzLoop :: "byte list \<Rightarrow> int list \<Rightarrow> int \<Rightarrow> byte list \<Rightarrow> token list
    \<Rightarrow> (byte list \<times> token list) option" where
  "lzLoop input table i out toks =
     (if i < int (length input) then
        (if i + lzMinMatch > int (length input) then do {
           b \<leftarrow> at input i;
           lzLoop input table (i + 1) (out @ emit (Literal b)) (toks @ [Literal b])
         }
         else do {
           b0 \<leftarrow> at input i;
           b1 \<leftarrow> at input (i + 1);
           b2 \<leftarrow> at input (i + 2);
           b3 \<leftarrow> at input (i + 3);
           let h = uint (lzHash b0 b1 b2 b3);
           candidate \<leftarrow> at table h;
           let table' = table[nat h := i];
           found \<leftarrow> (if candidate \<noteq> -1 \<and> i - candidate < lzWindowSize \<and> i - candidate > 0
                     then match4 input candidate i else Some False);
           if found then do {
             matchLen \<leftarrow> extendMatch input candidate i 4;
             let offset = i - candidate;
             lzLoop input table' (i + matchLen) (out @ emit (Match offset matchLen))
               (toks @ [Match offset matchLen])
           }
           else do {
             b \<leftarrow> at input i;
             lzLoop input table' (i + 1) (out @ emit (Literal b)) (toks @ [Literal b])
           }
         })
      else Some (out, toks))"
  by pat_completeness auto
termination
  by (relation "measure (\<lambda>(input, table, i, out, toks). nat (int (length input) - i))")
    (auto dest: extendMatch_ge)

declare lzLoop.simps [simp del]

text \<open>Lines 16-30 and 76: the empty input returns \<^verbatim>\<open>nil\<close>; the table starts at -1.\<close>

definition lzRun :: "byte list \<Rightarrow> (byte list \<times> token list) option" where
  "lzRun input =
     (if length input = 0 then Some ([], [])
      else lzLoop input (replicate hashSize (-1)) 0 [] [])"

definition lzCompressTokens :: "byte list \<Rightarrow> byte list option" where
  "lzCompressTokens input = map_option fst (lzRun input)"

text \<open>The tokens emitted on an input (the ghost trace of the run).\<close>

definition lzEmitted :: "byte list \<Rightarrow> token list option" where
  "lzEmitted input = map_option snd (lzRun input)"

subsection \<open>Decompression (lines 80-126)\<close>

datatype lz_error =
    TruncatedLiteral
  | TruncatedMatch
  | InvalidMatchOffset int int
  | InvalidTokenFlag byte
  | SizeMismatch int int
  | MakeSlicePanic
  | IndexPanic

text \<open>Lines 113-115: the byte-wise copy; \<^verbatim>\<open>out\<close> grows while it is read.\<close>

function copyMatch :: "byte list \<Rightarrow> int \<Rightarrow> int \<Rightarrow> int \<Rightarrow> byte list option" where
  "copyMatch out start j len =
     (if j < len then do {
        b \<leftarrow> at out (start + j);
        copyMatch (out @ [b]) start (j + 1) len
      }
      else Some out)"
  by pat_completeness auto
termination
  by (relation "measure (\<lambda>(out, start, j, len). nat (len - j))") auto

declare copyMatch.simps [simp del]

text \<open>
  Lines 88-120: the token loop. The cursor \<^verbatim>\<open>i\<close> into \<^verbatim>\<open>tokens\<close> is the unread suffix:
  reading \<^verbatim>\<open>tokens[i]\<close> and advancing \<^verbatim>\<open>i\<close> takes the head of the list, and
  \<^verbatim>\<open>i >= len(tokens)\<close> and \<^verbatim>\<open>i+3 > len(tokens)\<close> say that fewer than one or three
  bytes are left.
\<close>

fun decLoop :: "byte list \<Rightarrow> byte list \<Rightarrow> lz_error + byte list" where
  "decLoop [] out = Inr out"
| "decLoop (flag # rest) out =
     (if flag = 0x00 then
        (case rest of
           [] \<Rightarrow> Inl TruncatedLiteral
         | b # rest' \<Rightarrow> decLoop rest' (out @ [b]))
      else if flag = 0x01 then
        (case rest of
           lo # hi # l # rest' \<Rightarrow>
             (let offset = uint lo OR push_bit 8 (uint hi); len = uint l in
              if offset \<le> 0 \<or> offset > int (length out)
              then Inl (InvalidMatchOffset offset (int (length out)))
              else (case copyMatch out (int (length out) - offset) 0 len of
                      None \<Rightarrow> Inl IndexPanic
                    | Some out' \<Rightarrow> decLoop rest' out'))
         | _ \<Rightarrow> Inl TruncatedMatch)
      else Inl (InvalidTokenFlag flag))"

text \<open>
  Lines 80-87 and 122-125. \<^verbatim>\<open>make([]byte, 0, expectedSize)\<close> panics on a negative
  capacity.
\<close>

definition lzDecompressTokens :: "byte list \<Rightarrow> int \<Rightarrow> lz_error + byte list" where
  "lzDecompressTokens tokens expectedSize =
     (if length tokens = 0 \<and> expectedSize = 0 then Inr []
      else if expectedSize < 0 then Inl MakeSlicePanic
      else (case decLoop tokens [] of
              Inl e \<Rightarrow> Inl e
            | Inr out \<Rightarrow>
                if int (length out) \<noteq> expectedSize
                then Inl (SizeMismatch (int (length out)) expectedSize)
                else Inr out))"

subsection \<open>Notions used to state and prove the codec's properties\<close>

text \<open>
  \<open>tokenSpan\<close> is the number of input bytes a token stands for: the encoder advances
  \<^verbatim>\<open>i\<close> by it (lines 34, 66, 73) and the decoder appends as many bytes.
\<close>

fun tokenSpan :: "token \<Rightarrow> int" where
  "tokenSpan (Literal b) = 1"
| "tokenSpan (Match offset matchLen) = matchLen"

text \<open>
  \<open>covers xs i ts\<close>: the tokens \<open>ts\<close> describe \<open>xs\<close> from position \<open>i\<close> to its end.
  A literal is the byte at the position; a match of length \<open>ml\<close> at offset \<open>off\<close> starts
  at most \<open>i\<close> bytes back, and byte \<open>k\<close> of its source equals byte \<open>k\<close> of its target
  (the source may run into the target).
\<close>

fun covers :: "byte list \<Rightarrow> int \<Rightarrow> token list \<Rightarrow> bool" where
  "covers xs i [] = (i = int (length xs))"
| "covers xs i (Literal b # ts) =
     (0 \<le> i \<and> i < int (length xs) \<and> b = xs ! nat i \<and> covers xs (i + 1) ts)"
| "covers xs i (Match off ml # ts) =
     (1 \<le> off \<and> off \<le> i \<and> off < lzWindowSize \<and> 4 \<le> ml \<and> ml \<le> lzMaxMatch \<and>
      i + ml \<le> int (length xs) \<and>
      (\<forall>k. 0 \<le> k \<and> k < ml \<longrightarrow> xs ! nat (i - off + k) = xs ! nat (i + k)) \<and>
      covers xs (i + ml) ts)"

section \<open>Container header (core/format.go)\<close>

text \<open>
  A Go string is a sequence of bytes, and \<^verbatim>\<open>[]byte(s)\<close> and \<^verbatim>\<open>string(b)\<close> copy those bytes
  unchanged, so \<^verbatim>\<open>Filename\<close> is a byte list. The fixed-width fields are words.
\<close>

record FileHeader =
  Filename :: "byte list"
  OriginalSize :: "64 word"
  BlockSize :: "32 word"
  NumBlocks :: "64 word"
  BlockCompSizes :: "64 word list"

datatype io_error = EOF | ErrUnexpectedEOF

datatype header_error =
    FilenameTooLong
  | BlockCountMismatch
  | InvalidMagic
  | IOError io_error
  | HeaderIndexPanic

definition magic :: "byte list" where
  "magic = [0x50, 0x43, 0x5A, 0x32]"

text \<open>
  \<^verbatim>\<open>binary.Write(w, binary.LittleEndian, v)\<close> writes the bytes of \<open>v\<close>, lowest first;
  \<^verbatim>\<open>binary.Read\<close> reads as many bytes (\<^verbatim>\<open>io.ReadFull\<close>) and composes them.
\<close>

fun leBytes :: "nat \<Rightarrow> 'a::len word \<Rightarrow> byte list" where
  "leBytes 0 w = []"
| "leBytes (Suc n) w = ucast w # leBytes n (drop_bit 8 w)"

fun leWord :: "byte list \<Rightarrow> 'a::len word" where
  "leWord [] = 0"
| "leWord (b # bs) = ucast b OR push_bit 8 (leWord bs)"

text \<open>
  The reader is the list of bytes not yet read. \<^verbatim>\<open>io.ReadFull(r, buf)\<close> with
  \<open>len(buf) = n\<close> returns \<^verbatim>\<open>io.EOF\<close> when no byte is left, \<^verbatim>\<open>io.ErrUnexpectedEOF\<close> when
  fewer than \<open>n\<close> are, and no error for \<open>n = 0\<close>.
\<close>

definition readFull :: "nat \<Rightarrow> byte list \<Rightarrow> io_error + (byte list \<times> byte list)" where
  "readFull n r =
     (if n \<le> length r then Inr (take n r, drop n r)
      else if r = [] then Inl EOF else Inl ErrUnexpectedEOF)"

lemma unat_succ_less:
  fixes i n :: "'a::len word"
  assumes "i < n"
  shows "unat (i + 1) = unat i + 1" and "unat i < unat n"
proof -
  show lt: "unat i < unat n" using assms by (simp add: word_less_nat_alt)
  have "unat n < 2 ^ LENGTH('a)" by (rule unsigned_less)
  with lt have "unat i + 1 < 2 ^ LENGTH('a)" by linarith
  moreover have "unat (i + 1) = (unat i + 1) mod 2 ^ LENGTH('a)"
    by (simp add: unat_word_ariths)
  ultimately show "unat (i + 1) = unat i + 1" by simp
qed

text \<open>
  Lines 52-56 of \<^verbatim>\<open>WriteHeader\<close>: the loop over the size table. The writer is the list
  of bytes written so far (an in-memory writer: its writes do not fail).
\<close>

function writeSizes :: "byte list \<Rightarrow> 64 word list \<Rightarrow> 64 word \<Rightarrow> 64 word \<Rightarrow> byte list option" where
  "writeSizes w sizes i n =
     (if i < n then do {
        s \<leftarrow> at sizes (uint i);
        writeSizes (w @ leBytes 8 s) sizes (i + 1) n
      }
      else Some w)"
  by pat_completeness auto
termination
proof (relation "measure (\<lambda>(w, sizes, i, n). unat n - unat i)", goal_cases)
  case 1
  show ?case by simp
next
  case (2 w sizes i n s)
  from unat_succ_less [OF \<open>i < n\<close>] show ?case by simp
qed

declare writeSizes.simps [simp del]

text \<open>
  \<^verbatim>\<open>WriteHeader\<close> returns the writer and the error, if any: what was written before a
  failing check stays written.
\<close>

definition WriteHeader :: "byte list \<Rightarrow> FileHeader \<Rightarrow> byte list \<times> header_error option" where
  "WriteHeader w h =
     (let w1 = w @ magic;
          nameBytes = Filename h
      in if length nameBytes > 0xFFFF then (w1, Some FilenameTooLong)
         else
           let w2 = w1 @ leBytes 2 (of_nat (length nameBytes) :: 16 word);
               w3 = w2 @ leBytes 8 (OriginalSize h);
               w4 = w3 @ nameBytes;
               w5 = w4 @ leBytes 4 (BlockSize h);
               w6 = w5 @ leBytes 8 (NumBlocks h)
           in if (of_nat (length (BlockCompSizes h)) :: 64 word) \<noteq> NumBlocks h
              then (w6, Some BlockCountMismatch)
              else (case writeSizes w6 (BlockCompSizes h) 0 (NumBlocks h) of
                      None \<Rightarrow> (w6, Some HeaderIndexPanic)
                    | Some w7 \<Rightarrow> (w7, None)))"

text \<open>
  Lines 96-101 of \<^verbatim>\<open>ReadHeader\<close>: \<^verbatim>\<open>blockSizes\<close> is allocated with \<open>numBlocks\<close> zeros
  and filled by index. (An allocation too large for the machine is outside the model.)
\<close>

function readSizes :: "byte list \<Rightarrow> 64 word list \<Rightarrow> 64 word \<Rightarrow> 64 word
    \<Rightarrow> header_error + (64 word list \<times> byte list)" where
  "readSizes r blockSizes i n =
     (if i < n then
        (case readFull 8 r of
           Inl e \<Rightarrow> Inl (IOError e)
         | Inr (bs, r') \<Rightarrow> readSizes r' (blockSizes[unat i := leWord bs]) (i + 1) n)
      else Inr (blockSizes, r))"
  by pat_completeness auto
termination
proof (relation "measure (\<lambda>(r, blockSizes, i, n). unat n - unat i)", goal_cases)
  case 1
  show ?case by simp
next
  case (2 r blockSizes i n x bs r')
  from unat_succ_less [OF \<open>i < n\<close>] show ?case by simp
qed

declare readSizes.simps [simp del]

text \<open>\<^verbatim>\<open>ReadHeader\<close> returns the header and the reader positioned after it.\<close>

definition ReadHeader :: "byte list \<Rightarrow> header_error + (FileHeader \<times> byte list)" where
  "ReadHeader r =
     (case readFull 4 r of
        Inl e \<Rightarrow> Inl (IOError e)
      | Inr (m, r1) \<Rightarrow>
          if m \<noteq> magic then Inl InvalidMagic
          else (case readFull 2 r1 of
            Inl e \<Rightarrow> Inl (IOError e)
          | Inr (nl, r2) \<Rightarrow>
              let nameLen = (leWord nl :: 16 word) in
              (case readFull 8 r2 of
                Inl e \<Rightarrow> Inl (IOError e)
              | Inr (os, r3) \<Rightarrow>
                  let originalSize = (leWord os :: 64 word) in
                  (case readFull (unat nameLen) r3 of
                    Inl e \<Rightarrow> Inl (IOError e)
                  | Inr (nameBytes, r4) \<Rightarrow>
                      (case readFull 4 r4 of
                        Inl e \<Rightarrow> Inl (IOError e)
                      | Inr (bsz, r5) \<Rightarrow>
                          let blockSize = (leWord bsz :: 32 word) in
                          (case readFull 8 r5 of
                            Inl e \<Rightarrow> Inl (IOError e)
                          | Inr (nb, r6) \<Rightarrow>
                              let numBlocks = (leWord nb :: 64 word) in
                              (case readSizes r6 (replicate (unat numBlocks) 0) 0 numBlocks of
                                Inl e \<Rightarrow> Inl e
                              | Inr (blockSizes, r7) \<Rightarrow>
                                  Inr (\<lparr>Filename = nameBytes, OriginalSize = originalSize,
                                        BlockSize = blockSize, NumBlocks = numBlocks,
                                        BlockCompSizes = blockSizes\<rparr>, r7))))))))"

section \<open>Per-block mode choice\<close>

text \<open>
  The same lines stand in all three compressors (\<^verbatim>\<open>SequentialCompressFile\<close> lines 89-100,
  \<^verbatim>\<open>BSPCompressFile\<close> lines 99-109, \<^verbatim>\<open>WorkStealingCompressFile\<close> lines 146-157): the
  block \<^verbatim>\<open>buf\<close> is stored raw behind the tag \<open>0xFF\<close> when
  \<^verbatim>\<open>len(tokens)+1 >= len(buf)+1\<close>, and as its tokens behind the tag \<open>0x00\<close> otherwise.
\<close>

definition encodeBlock :: "byte list \<Rightarrow> byte list option" where
  "encodeBlock buf = do {
     tokens \<leftarrow> lzCompressTokens buf;
     Some (if int (length tokens) + 1 \<ge> int (length buf) + 1
           then 0xFF # buf
           else 0x00 # tokens)
   }"

section \<open>Static partition of the BSP driver\<close>

text \<open>
  Go's \<^verbatim>\<open>/\<close> and \<^verbatim>\<open>%\<close> on \<^verbatim>\<open>int\<close> truncate towards zero.
\<close>

definition quo :: "int \<Rightarrow> int \<Rightarrow> int" where
  "quo a b = (if (a < 0) = (b < 0) then \<bar>a\<bar> div \<bar>b\<bar> else - (\<bar>a\<bar> div \<bar>b\<bar>))"

definition rem :: "int \<Rightarrow> int \<Rightarrow> int" where
  "rem a b = a - b * quo a b"

text \<open>
  \<^verbatim>\<open>BSPCompressFile\<close> lines 14-16 and 68-70 (and \<^verbatim>\<open>BSPDecompressFile\<close> lines 147-149,
  193-195): the worker count.
\<close>

definition bspThreads :: "int \<Rightarrow> int \<Rightarrow> int" where
  "bspThreads threads numBlocks =
     (let threads = (if threads \<le> 0 then 1 else threads)
      in if threads > numBlocks then numBlocks else threads)"

text \<open>Lines 76-79: the partition size.\<close>

definition bspChunkSize :: "int \<Rightarrow> int \<Rightarrow> int" where
  "bspChunkSize numBlocks threads =
     (let chunkSize = quo numBlocks threads
      in if rem numBlocks threads \<noteq> 0 then chunkSize + 1 else chunkSize)"

text \<open>Lines 85-94: the bounds \<^verbatim>\<open>start\<close> and \<^verbatim>\<open>end\<close> of worker \<^verbatim>\<open>id\<close> (here \<open>wid\<close>).\<close>

definition bspRange :: "int \<Rightarrow> int \<Rightarrow> int \<Rightarrow> int \<times> int" where
  "bspRange numBlocks chunkSize wid =
     (let start = wid * chunkSize;
          end' = start + chunkSize;
          (start, end') = (if start \<ge> numBlocks then (0, 0) else (start, end'));
          end' = (if end' > numBlocks then numBlocks else end')
      in (start, end'))"

text \<open>
  Line 96: the loop \<^verbatim>\<open>for idx := start; idx < end; idx++\<close> of worker \<^verbatim>\<open>id\<close> visits these
  block indices, for the requested thread count \<^verbatim>\<open>threads\<close>.
\<close>

definition bspOwned :: "int \<Rightarrow> int \<Rightarrow> int \<Rightarrow> int set" where
  "bspOwned numBlocks threads wid =
     (let t = bspThreads threads numBlocks;
          (start, end') = bspRange numBlocks (bspChunkSize numBlocks t) wid
      in {start..<end'})"

section \<open>Decompression drivers\<close>

text \<open>
  A file is the list of its bytes. A driver returns the output file (\<open>None\<close> when it was
  never created) and the error (\<open>None\<close> for \<^verbatim>\<open>nil\<close>). Errors of the file system itself
  (open, create, write) are outside the model. A run-time panic is the error \<open>Panic\<close>.
  Allocations too large for the machine are not modelled.
\<close>

datatype drv_error =
    ReadHeaderError header_error
  | InvalidCompSize int
  | ReadBlockError int io_error
  | EmptyBlock int
  | RawSizeMismatch int int int
  | DecompressError int lz_error
  | UnknownMode byte int
  | ReadPayloadError io_error
  | Panic

text \<open>Go's 64-bit \<^verbatim>\<open>int\<close> arithmetic wraps around.\<close>

definition wrap64 :: "int \<Rightarrow> int" where
  "wrap64 x = sint (word_of_int x :: 64 word)"

text \<open>\<^verbatim>\<open>xs[lo:hi]\<close> panics unless \<open>0 \<le> lo \<le> hi \<le> cap(xs)\<close>.\<close>

definition slice :: "'a list \<Rightarrow> int \<Rightarrow> int \<Rightarrow> 'a list option" where
  "slice xs lo hi =
     (if 0 \<le> lo \<and> lo \<le> hi \<and> hi \<le> int (length xs)
      then Some (take (nat (hi - lo)) (drop (nat lo) xs)) else None)"

text \<open>
  The mode switch on an encoded block, the same in the three drivers
  (\<^verbatim>\<open>SequentialDecompressFile\<close> lines 182-206, \<^verbatim>\<open>BSPDecompressFile\<close> lines 246-278,
  \<^verbatim>\<open>WorkStealingDecompressFile\<close> lines 313-338). A panic inside
  \<^verbatim>\<open>lzDecompressTokens\<close> is a panic of the driver.
\<close>

definition decodeBlock :: "int \<Rightarrow> byte \<Rightarrow> byte list \<Rightarrow> int \<Rightarrow> drv_error + byte list" where
  "decodeBlock blockIndex mode data' expectedOrigSize =
     (if mode = 0xFF then
        (if int (length data') \<noteq> expectedOrigSize
         then Inl (RawSizeMismatch blockIndex (int (length data')) expectedOrigSize)
         else Inr data')
      else if mode = 0x00 then
        (case lzDecompressTokens data' expectedOrigSize of
           Inl MakeSlicePanic \<Rightarrow> Inl Panic
         | Inl IndexPanic \<Rightarrow> Inl Panic
         | Inl e \<Rightarrow> Inl (DecompressError blockIndex e)
         | Inr decompressed \<Rightarrow> Inr decompressed)
      else Inl (UnknownMode mode blockIndex))"

text \<open>
  The expected size of a block (\<^verbatim>\<open>SequentialDecompressFile\<close> lines 173-180; lines 241-244
  and 298-301 of the parallel drivers): \<^verbatim>\<open>blockSize\<close>, and for the last block what is
  left of \<^verbatim>\<open>originalSize\<close>.
\<close>

definition expectedSize :: "int \<Rightarrow> int \<Rightarrow> int \<Rightarrow> int \<Rightarrow> int" where
  "expectedSize blockSize numBlocks originalSize blockIndex =
     (if blockIndex < numBlocks - 1 then blockSize
      else wrap64 (originalSize - wrap64 (blockSize * wrap64 (numBlocks - 1))))"

subsection \<open>Sequential driver\<close>

text \<open>
  \<^verbatim>\<open>SequentialDecompressFile\<close> lines 159-207: the loop over the blocks. \<open>inp\<close> is the
  reader after the header, \<open>out\<close> the bytes written to the output file so far.
\<close>

function seqBlocks :: "FileHeader \<Rightarrow> byte list \<Rightarrow> int \<Rightarrow> byte list
    \<Rightarrow> byte list \<times> drv_error option" where
  "seqBlocks header inp blockIndex out =
     (let blockSize = uint (BlockSize header);
          numBlocks = sint (NumBlocks header);
          originalSize = sint (OriginalSize header)
      in if blockIndex < numBlocks then
           (case at (BlockCompSizes header) blockIndex of
              None \<Rightarrow> (out, Some Panic)
            | Some compSize \<Rightarrow>
                if compSize = 0 then (out, Some (InvalidCompSize blockIndex))
                else
                  (case readFull (unat compSize) inp of
                     Inl e \<Rightarrow> (out, Some (ReadBlockError blockIndex e))
                   | Inr (compBuf, inp') \<Rightarrow>
                       (case compBuf of
                          [] \<Rightarrow> (out, Some (EmptyBlock blockIndex))
                        | mode # data' \<Rightarrow>
                            (case decodeBlock blockIndex mode data'
                                    (expectedSize blockSize numBlocks originalSize blockIndex) of
                               Inl e \<Rightarrow> (out, Some e)
                             | Inr bytes \<Rightarrow> seqBlocks header inp' (blockIndex + 1) (out @ bytes)))))
         else (out, None))"
  by pat_completeness auto
termination
  by (relation "measure (\<lambda>(header, inp, blockIndex, out). nat (sint (NumBlocks header) - blockIndex))")
    auto

declare seqBlocks.simps [simp del]

text \<open>
  \<^verbatim>\<open>SequentialDecompressFile\<close> lines 134-153: the header is read, the output file is
  created, and a header with \<^verbatim>\<open>OriginalSize == 0 || NumBlocks == 0\<close> returns at once.
\<close>

definition SequentialDecompressFile :: "byte list \<Rightarrow> byte list option \<times> drv_error option" where
  "SequentialDecompressFile compressed =
     (case ReadHeader compressed of
        Inl e \<Rightarrow> (None, Some (ReadHeaderError e))
      | Inr (header, inp) \<Rightarrow>
          if OriginalSize header = 0 \<or> NumBlocks header = 0 then (Some [], None)
          else (case seqBlocks header inp 0 [] of (out, err) \<Rightarrow> (Some out, err)))"

subsection \<open>Parallel drivers\<close>

text \<open>
  \<^verbatim>\<open>BSPDecompressFile\<close> lines 175-189 (\<^verbatim>\<open>WorkStealingDecompressFile\<close> lines 220-234):
  the payload length is the wrapping sum of the size table, and the offsets are its
  prefix sums.
\<close>

definition totalSize :: "64 word list \<Rightarrow> 64 word" where
  "totalSize sizes = foldl (+) 0 sizes"

function blockOffsets :: "64 word list \<Rightarrow> 64 word list \<Rightarrow> int \<Rightarrow> int \<Rightarrow> 64 word
    \<Rightarrow> 64 word list option" where
  "blockOffsets sizes offs i numBlocks cur =
     (if i < numBlocks then do {
        s \<leftarrow> at sizes i;
        blockOffsets sizes (offs[nat i := cur]) (i + 1) numBlocks (cur + s)
      }
      else Some offs)"
  by pat_completeness auto
termination
  by (relation "measure (\<lambda>(sizes, offs, i, numBlocks, cur). nat (numBlocks - i))") auto

declare blockOffsets.simps [simp del]

text \<open>
  \<^verbatim>\<open>copy(outBuf[lo:hi], src)\<close>: the slice expression is checked, and \<^verbatim>\<open>copy\<close> moves
  as many bytes as the shorter of the two slices has.
\<close>

definition copyInto :: "byte list \<Rightarrow> int \<Rightarrow> int \<Rightarrow> byte list \<Rightarrow> byte list option" where
  "copyInto outBuf lo hi src =
     (if 0 \<le> lo \<and> lo \<le> hi \<and> hi \<le> int (length outBuf)
      then let n = min (nat (hi - lo)) (length src)
           in Some (take (nat lo) outBuf @ take n src @ drop (nat lo + n) outBuf)
      else None)"

text \<open>
  The work of a worker on block \<^verbatim>\<open>idx\<close> (\<^verbatim>\<open>BSPDecompressFile\<close> lines 231-277,
  \<^verbatim>\<open>WorkStealingDecompressFile\<close> lines 297-339; the two differ in the wording of their
  error messages).
\<close>

definition parBlock :: "FileHeader \<Rightarrow> byte list \<Rightarrow> 64 word list \<Rightarrow> int \<Rightarrow> byte list
    \<Rightarrow> drv_error + byte list" where
  "parBlock header compData offs idx outBuf =
     (let numBlocks = sint (NumBlocks header);
          blockSize = uint (BlockSize header);
          originalSize = sint (OriginalSize header)
      in case (at offs idx, at (BlockCompSizes header) idx) of
           (Some off, Some size') \<Rightarrow>
             (case slice compData (uint off) (uint (off + size')) of
                None \<Rightarrow> Inl Panic
              | Some [] \<Rightarrow> Inl (EmptyBlock idx)
              | Some (mode # data') \<Rightarrow>
                  (let exp = (if idx = numBlocks - 1
                              then wrap64 (originalSize - wrap64 (blockSize * wrap64 (numBlocks - 1)))
                              else blockSize)
                   in case decodeBlock idx mode data' exp of
                        Inl e \<Rightarrow> Inl e
                      | Inr bytes \<Rightarrow>
                          (case copyInto outBuf (wrap64 (idx * blockSize))
                                  (wrap64 (wrap64 (idx * blockSize) + exp)) bytes of
                             None \<Rightarrow> Inl Panic
                           | Some outBuf' \<Rightarrow> Inr outBuf')))
         | _ \<Rightarrow> Inl Panic)"

text \<open>
  The workers together decode every block index once. The model runs the blocks in index
  order and stops at the first error: when no block fails this is the result of every
  schedule (the blocks write disjoint parts of \<^verbatim>\<open>outBuf\<close>); when blocks fail, the drivers
  return the error of one of them.
\<close>

function parBlocks :: "FileHeader \<Rightarrow> byte list \<Rightarrow> 64 word list \<Rightarrow> int \<Rightarrow> byte list
    \<Rightarrow> drv_error + byte list" where
  "parBlocks header compData offs idx outBuf =
     (if idx < sint (NumBlocks header) then
        (case parBlock header compData offs idx outBuf of
           Inl e \<Rightarrow> Inl e
         | Inr outBuf' \<Rightarrow> parBlocks header compData offs (idx + 1) outBuf')
      else Inr outBuf)"
  by pat_completeness auto
termination
  by (relation "measure (\<lambda>(header, compData, offs, idx, outBuf). nat (sint (NumBlocks header) - idx))")
    auto

declare parBlocks.simps [simp del]

text \<open>
  What both parallel drivers do after the early return: read the payload, compute the
  offsets, allocate the output buffer (\<^verbatim>\<open>make\<close> panics on a negative length), decode,
  and only then create and write the output file.
\<close>

definition parDecompress :: "FileHeader \<Rightarrow> byte list \<Rightarrow> byte list option \<times> drv_error option" where
  "parDecompress header inp =
     (let numBlocks = sint (NumBlocks header);
          originalSize = sint (OriginalSize header)
      in case readFull (unat (totalSize (BlockCompSizes header))) inp of
           Inl e \<Rightarrow> (None, Some (ReadPayloadError e))
         | Inr (compData, inp') \<Rightarrow>
             if numBlocks < 0 \<or> originalSize < 0 then (None, Some Panic)
             else
               (case blockOffsets (BlockCompSizes header) (replicate (nat numBlocks) 0) 0 numBlocks 0 of
                  None \<Rightarrow> (None, Some Panic)
                | Some offs \<Rightarrow>
                    (case parBlocks header compData offs 0 (replicate (nat originalSize) 0) of
                       Inl e \<Rightarrow> (None, Some e)
                     | Inr outBuf \<Rightarrow> (Some outBuf, None))))"

text \<open>
  \<^verbatim>\<open>BSPDecompressFile\<close> lines 147-169 and \<^verbatim>\<open>WorkStealingDecompressFile\<close> lines 192-214:
  \<^verbatim>\<open>threads <= 0\<close> becomes 1, the header is read, and a header with
  \<^verbatim>\<open>OriginalSize == 0 || NumBlocks == 0\<close> creates the output file and returns. The
  thread count only decides which worker decodes which block.
\<close>

definition BSPDecompressFile :: "byte list \<Rightarrow> int \<Rightarrow> byte list option \<times> drv_error option" where
  "BSPDecompressFile compressed threads =
     (let threads = (if threads \<le> 0 then 1 else threads)
      in case ReadHeader compressed of
           Inl e \<Rightarrow> (None, Some (ReadHeaderError e))
         | Inr (header, inp) \<Rightarrow>
             if OriginalSize header = 0 \<or> NumBlocks header = 0 then (Some [], None)
             else parDecompress header inp)"

definition WorkStealingDecompressFile :: "byte list \<Rightarrow> int \<Rightarrow> byte list option \<times> drv_error option" where
  "WorkStealingDecompressFile compressed threads =
     (let threads = (if threads \<le> 0 then 1 else threads)
      in case ReadHeader compressed of
           Inl e \<Rightarrow> (None, Some (ReadHeaderError e))
         | Inr (h, inp) \<Rightarrow>
             if OriginalSize h = 0 \<or> NumBlocks h = 0 then (Some [], None)
             else parDecompress h inp)"

section \<open>Work-stealing deque (core/wsdeque.go)\<close>

text \<open>
  The operations of \<^verbatim>\<open>WSDeque\<close> run concurrently: one owner calls \<^verbatim>\<open>PushBottom\<close> and
  \<^verbatim>\<open>PopBottom\<close>, any number of thieves call \<^verbatim>\<open>Steal\<close>. Go's atomic loads, stores and
  compare-and-swap are sequentially consistent, so a run is an interleaving of the threads'
  accesses to the shared fields, each access (also a read or a write of a slot of
  \<^verbatim>\<open>tasks\<close>) one atomic step. A configuration holds
  \<^item> the four fields of the struct (\<open>d_tasks\<close>, \<open>d_mask\<close>, \<open>d_top\<close>, \<open>d_bottom\<close>); the
    counters are natural numbers (a \<^verbatim>\<open>uint64\<close> counter does not wrap before \<open>2^64\<close>
    operations);
  \<^item> for the owner and for each thief the place it has reached in its current call,
    with the values of the call's local variables;
  \<^item> two ghost lists: the tasks pushed so far (recorded when \<^verbatim>\<open>PushBottom\<close> publishes
    the new \<^verbatim>\<open>bottom\<close>) and the tasks returned so far by a successful \<^verbatim>\<open>PopBottom\<close> or
    \<^verbatim>\<open>Steal\<close>.
\<close>

datatype owner_pc =
    OIdle
  | Push1 int nat
  | Push2 int nat
  | Pop1 nat
  | Pop2 nat
  | Pop3 nat nat
  | Pop4 nat nat int
  | Pop5 nat int bool

datatype thief_pc =
    TIdle
  | Steal1 nat
  | Steal2 nat
  | Steal3 nat int

record config =
  d_tasks :: "int list"
  d_mask :: nat
  d_top :: nat
  d_bottom :: nat
  owner :: owner_pc
  thief :: "nat \<Rightarrow> thief_pc"
  pushed :: "int list"
  returned :: "int list"

text \<open>\<^verbatim>\<open>d.tasks[j & d.mask]\<close>.\<close>

definition slot :: "config \<Rightarrow> nat \<Rightarrow> int" where
  "slot c j = d_tasks c ! (j AND d_mask c)"

text \<open>
  The steps. Each rule names the lines of wsdeque.go it stands for; the local variables
  \<^verbatim>\<open>b\<close>, \<^verbatim>\<open>t\<close> and \<^verbatim>\<open>task\<close> are the arguments of the places.
  \<^item> \<^verbatim>\<open>PushBottom\<close>: \<open>Push1 task b\<close> after line 50, \<open>Push2 task b\<close> after line 51. The
    owner calls it only while the deque holds fewer tasks than its capacity (the claim's
    assumption that the capacity is never exceeded).
  \<^item> \<^verbatim>\<open>PopBottom\<close>: \<open>Pop1 b\<close> after lines 57-61 (\<open>b\<close> already decremented), \<open>Pop2 b\<close> after
    the store of line 62, \<open>Pop3 b t\<close> after the load of line 64, \<open>Pop4 b t task\<close> after the
    read of line 66, \<open>Pop5 b task ok\<close> after the compare-and-swap of line 68.
  \<^item> \<^verbatim>\<open>Steal\<close>: \<open>Steal1 t\<close> after line 83, \<open>Steal2 t\<close> after lines 84-87 when \<open>t < b\<close>,
    \<open>Steal3 t task\<close> after the read of line 88.
\<close>

inductive step :: "config \<Rightarrow> config \<Rightarrow> bool" where
  push_load:
    "owner c = OIdle \<Longrightarrow> d_bottom c - d_top c < length (d_tasks c) \<Longrightarrow>
     step c (c\<lparr>owner := Push1 task (d_bottom c)\<rparr>)"
| push_write:
    "owner c = Push1 task b \<Longrightarrow>
     step c (c\<lparr>d_tasks := (d_tasks c)[b AND d_mask c := task], owner := Push2 task b\<rparr>)"
| push_store:
    "owner c = Push2 task b \<Longrightarrow>
     step c (c\<lparr>d_bottom := b + 1, owner := OIdle, pushed := pushed c @ [task]\<rparr>)"
| pop_load_zero:
    "owner c = OIdle \<Longrightarrow> d_bottom c = 0 \<Longrightarrow> step c c"
| pop_load:
    "owner c = OIdle \<Longrightarrow> d_bottom c \<noteq> 0 \<Longrightarrow>
     step c (c\<lparr>owner := Pop1 (d_bottom c - 1)\<rparr>)"
| pop_store:
    "owner c = Pop1 b \<Longrightarrow> step c (c\<lparr>d_bottom := b, owner := Pop2 b\<rparr>)"
| pop_load_top:
    "owner c = Pop2 b \<Longrightarrow> step c (c\<lparr>owner := Pop3 b (d_top c)\<rparr>)"
| pop_read:
    "owner c = Pop3 b t \<Longrightarrow> t \<le> b \<Longrightarrow> step c (c\<lparr>owner := Pop4 b t (slot c b)\<rparr>)"
| pop_empty:
    "owner c = Pop3 b t \<Longrightarrow> \<not> t \<le> b \<Longrightarrow> step c (c\<lparr>d_bottom := b + 1, owner := OIdle\<rparr>)"
| pop_take:
    "owner c = Pop4 b t task \<Longrightarrow> t \<noteq> b \<Longrightarrow>
     step c (c\<lparr>owner := OIdle, returned := returned c @ [task]\<rparr>)"
| pop_cas_ok:
    "owner c = Pop4 b t task \<Longrightarrow> t = b \<Longrightarrow> d_top c = t \<Longrightarrow>
     step c (c\<lparr>d_top := t + 1, owner := Pop5 b task True\<rparr>)"
| pop_cas_fail:
    "owner c = Pop4 b t task \<Longrightarrow> t = b \<Longrightarrow> d_top c \<noteq> t \<Longrightarrow>
     step c (c\<lparr>owner := Pop5 b task False\<rparr>)"
| pop_restore_ok:
    "owner c = Pop5 b task True \<Longrightarrow>
     step c (c\<lparr>d_bottom := b + 1, owner := OIdle, returned := returned c @ [task]\<rparr>)"
| pop_restore_fail:
    "owner c = Pop5 b task False \<Longrightarrow> step c (c\<lparr>d_bottom := b + 1, owner := OIdle\<rparr>)"
| steal_load_top:
    "thief c i = TIdle \<Longrightarrow> step c (c\<lparr>thief := (thief c)(i := Steal1 (d_top c))\<rparr>)"
| steal_load_bottom:
    "thief c i = Steal1 t \<Longrightarrow>
     step c (c\<lparr>thief := (thief c)(i := (if t \<ge> d_bottom c then TIdle else Steal2 t))\<rparr>)"
| steal_read:
    "thief c i = Steal2 t \<Longrightarrow> step c (c\<lparr>thief := (thief c)(i := Steal3 t (slot c t))\<rparr>)"
| steal_cas_ok:
    "thief c i = Steal3 t task \<Longrightarrow> d_top c = t \<Longrightarrow>
     step c (c\<lparr>d_top := t + 1, thief := (thief c)(i := TIdle), returned := returned c @ [task]\<rparr>)"
| steal_cas_fail:
    "thief c i = Steal3 t task \<Longrightarrow> d_top c \<noteq> t \<Longrightarrow>
     step c (c\<lparr>thief := (thief c)(i := TIdle)\<rparr>)"

text \<open>
  Lines 25-34: \<^verbatim>\<open>nextPow2\<close> smears the highest set bit of \<open>n - 1\<close> over all lower
  positions of a \<^verbatim>\<open>uint64\<close> and adds one.
\<close>

definition nextPow2 :: "int \<Rightarrow> int" where
  "nextPow2 n =
     (let x = (word_of_int (n - 1) :: 64 word);
          x = x OR drop_bit 1 x;
          x = x OR drop_bit 2 x;
          x = x OR drop_bit 4 x;
          x = x OR drop_bit 8 x;
          x = x OR drop_bit 16 x;
          x = x OR drop_bit 32 x
      in sint (x + 1))"

text \<open>
  Lines 37-46: \<^verbatim>\<open>NewWSDeque\<close> allocates \<open>size\<close> zeroed slots and sets
  \<^verbatim>\<open>mask = size - 1\<close>; the counters start at 0. Every thread is between calls.
\<close>

definition NewWSDeque :: "int \<Rightarrow> config" where
  "NewWSDeque capacity =
     (let capacity = (if capacity \<le> 0 then 1 else capacity);
          size = nextPow2 capacity
      in \<lparr>d_tasks = replicate (nat size) 0, d_mask = nat (size - 1), d_top = 0, d_bottom = 0,
          owner = OIdle, thief = (\<lambda>i. TIdle), pushed = [], returned = []\<rparr>)"

text \<open>
  \<open>initial k\<close> is the new deque with \<open>2 ^ k\<close> slots. For a requested capacity of at
  most \<open>2 ^ 62\<close>, the deque that \<^verbatim>\<open>NewWSDeque\<close> returns has this form, with room for
  the requested capacity (lemma \<open>NewWSDeque_initial\<close> below).
\<close>

definition initial :: "nat \<Rightarrow> config" where
  "initial k = \<lparr>d_tasks = replicate (2 ^ k) 0, d_mask = 2 ^ k - 1, d_top = 0, d_bottom = 0,
                owner = OIdle, thief = (\<lambda>i. TIdle), pushed = [], returned = []\<rparr>"

inductive reachable :: "nat \<Rightarrow> config \<Rightarrow> bool" where
  reach_initial: "reachable k (initial k)"
| reach_step: "reachable k c \<Longrightarrow> step c c' \<Longrightarrow> reachable k c'"

subsection \<open>The invariant\<close>

text \<open>
  For \<^verbatim>\<open>nextPow2\<close>: bit \<open>i\<close> of \<open>x\<close> is set exactly when \<open>x0\<close> has a set bit among
  the \<open>w\<close> positions from \<open>i\<close> upwards.
\<close>

definition spread :: "64 word \<Rightarrow> nat \<Rightarrow> 64 word \<Rightarrow> bool" where
  "spread x0 w x \<longleftrightarrow> (\<forall>i. bit x i \<longleftrightarrow> (\<exists>j. i \<le> j \<and> j < i + w \<and> bit x0 j))"

text \<open>
  While \<^verbatim>\<open>PopBottom\<close> has lowered \<^verbatim>\<open>bottom\<close> but not yet decided whether it takes the
  task, the task at the old bottom is still in the deque. \<open>logicalBottom\<close> is the end
  of the deque's contents in every place of the owner.
\<close>

definition logicalBottom :: "config \<Rightarrow> nat" where
  "logicalBottom c =
     (case owner c of
        Pop2 b \<Rightarrow> b + 1
      | Pop3 b t \<Rightarrow> if t < b then b else b + 1
      | Pop4 b t task \<Rightarrow> if t < b then b else b + 1
      | Pop5 b task ok \<Rightarrow> b + 1
      | _ \<Rightarrow> d_bottom c)"

definition content :: "config \<Rightarrow> int list" where
  "content c = map (slot c) [d_top c ..< logicalBottom c]"

text \<open>The task the owner has taken out of the deque and not yet returned.\<close>

definition inflight :: "config \<Rightarrow> int multiset" where
  "inflight c =
     (case owner c of
        Pop3 b t \<Rightarrow> if t < b then {#slot c b#} else {#}
      | Pop4 b t task \<Rightarrow> if t < b then {#task#} else {#}
      | Pop5 b task ok \<Rightarrow> if ok then {#task#} else {#}
      | _ \<Rightarrow> {#})"

fun owner_ok :: "config \<Rightarrow> owner_pc \<Rightarrow> bool" where
  "owner_ok c OIdle = True"
| "owner_ok c (Push1 task b) = (b = d_bottom c \<and> b - d_top c < length (d_tasks c))"
| "owner_ok c (Push2 task b) =
     (b = d_bottom c \<and> b - d_top c < length (d_tasks c) \<and> slot c b = task)"
| "owner_ok c (Pop1 b) = (d_bottom c = b + 1)"
| "owner_ok c (Pop2 b) = (d_bottom c = b)"
| "owner_ok c (Pop3 b t) = (d_bottom c = b \<and> t \<le> d_top c)"
| "owner_ok c (Pop4 b t task) = (d_bottom c = b \<and> t \<le> d_top c \<and> t \<le> b \<and> task = slot c b)"
| "owner_ok c (Pop5 b task ok) = (d_bottom c = b \<and> d_top c = b + 1)"

text \<open>
  What a thief knows: the \<^verbatim>\<open>top\<close> it loaded is not ahead of the real one, and if it is
  still the real one, the task at that position is in the deque and is the one it read.
\<close>

fun thief_ok :: "nat \<Rightarrow> nat \<Rightarrow> int \<Rightarrow> thief_pc \<Rightarrow> bool" where
  "thief_ok tp lb v TIdle = True"
| "thief_ok tp lb v (Steal1 t) = (t \<le> tp)"
| "thief_ok tp lb v (Steal2 t) = (t \<le> tp \<and> (t = tp \<longrightarrow> t < lb))"
| "thief_ok tp lb v (Steal3 t task) = (t \<le> tp \<and> (t = tp \<longrightarrow> t < lb \<and> task = v))"

definition dq_inv :: "nat \<Rightarrow> config \<Rightarrow> bool" where
  "dq_inv k c \<longleftrightarrow>
     length (d_tasks c) = 2 ^ k \<and> d_mask c = 2 ^ k - 1 \<and>
     d_top c \<le> logicalBottom c \<and>
     owner_ok c (owner c) \<and>
     (\<forall>i. thief_ok (d_top c) (logicalBottom c) (slot c (d_top c)) (thief c i)) \<and>
     mset (pushed c) = mset (returned c) + mset (content c) + inflight c"

subsection \<open>An example run\<close>

text \<open>
  On a deque of capacity 2 the owner pushes 7 and 8 (\<open>two_pushed\<close>) and then pops once
  (\<open>one_popped\<close>), with no thief active.
\<close>

definition two_pushed :: config where
  "two_pushed = \<lparr>d_tasks = [7, 8], d_mask = 1, d_top = 0, d_bottom = 2, owner = OIdle,
                  thief = (\<lambda>i. TIdle), pushed = [7, 8], returned = []\<rparr>"

definition one_popped :: config where
  "one_popped = \<lparr>d_tasks = [7, 8], d_mask = 1, d_top = 0, d_bottom = 1, owner = OIdle,
                  thief = (\<lambda>i. TIdle), pushed = [7, 8], returned = [8]\<rparr>"
section \<open>Properties of the LZ codec\<close>

lemma at_Some_iff: "at xs i = Some x \<longleftrightarrow> 0 \<le> i \<and> i < int (length xs) \<and> x = xs ! nat i"
  by (auto simp: at_def)

lemma at_in_range: "0 \<le> i \<Longrightarrow> i < int (length xs) \<Longrightarrow> at xs i = Some (xs ! nat i)"
  by (simp add: at_def)

lemma at_None_iff: "at xs i = None \<longleftrightarrow> \<not> (0 \<le> i \<and> i < int (length xs))"
  by (simp add: at_def)

lemma eqAt_in_range:
  "0 \<le> a \<Longrightarrow> a < int (length xs) \<Longrightarrow> 0 \<le> b \<Longrightarrow> b < int (length xs) \<Longrightarrow>
   eqAt xs a b = Some (xs ! nat a = xs ! nat b)"
  by (simp add: eqAt_def at_in_range)

lemma match4_in_range:
  assumes "0 \<le> c" "c < i" "i + 4 \<le> int (length xs)"
  shows "match4 xs c i = Some (\<forall>k\<in>{0..<4}. xs ! nat (c + k) = xs ! nat (i + k))"
proof -
  have *: "{0..<4::int} = {0, 1, 2, 3}" by auto
  show ?thesis using assms
    by (simp add: match4_def eqAt_in_range *)
qed

lemma lzHash_range: "0 \<le> uint (lzHash b0 b1 b2 b3) \<and> uint (lzHash b0 b1 b2 b3) < int hashSize"
proof -
  have "uint (drop_bit 18 (w :: 32 word)) < 16384" for w
  proof -
    have "uint w < 2 ^ 32" using uint_bounded [of w] by simp
    then have "uint w div 2 ^ 18 < 16384" by simp
    moreover have "take_bit LENGTH(32) (uint w) = uint w"
      using uint_bounded [of w] by (intro take_bit_int_eq_self) simp_all
    then have "uint (drop_bit 18 w) = drop_bit 18 (uint w)"
      by (simp only: unsigned_drop_bit_eq)
    ultimately show ?thesis by (simp only: drop_bit_eq_div)
  qed
  then show ?thesis by (simp add: lzHash_def hashSize_def hashBits_def Let_def)
qed

lemma extendMatch_spec:
  assumes "0 \<le> c" "c < i" "0 \<le> m" "m \<le> lzMaxMatch" "i + m \<le> int (length xs)"
  shows "\<exists>r. extendMatch xs c i m = Some r \<and> m \<le> r \<and> r \<le> lzMaxMatch \<and> i + r \<le> int (length xs)
           \<and> (\<forall>k. m \<le> k \<and> k < r \<longrightarrow> xs ! nat (c + k) = xs ! nat (i + k))"
  using assms
proof (induction xs c i m rule: extendMatch.induct)
  case (1 input candidate i matchLen)
  show ?case
  proof (cases "i + matchLen < int (length input) \<and> candidate + matchLen < int (length input) \<and>
         matchLen < lzMaxMatch")
    case True
    let ?e = "input ! nat (candidate + matchLen) = input ! nat (i + matchLen)"
    have e: "eqAt input (candidate + matchLen) (i + matchLen) = Some ?e"
      using True "1.prems" by (intro eqAt_in_range) auto
    show ?thesis
    proof (cases ?e)
      case eq: True
      from "1.IH" [OF True e eq] "1.prems" True
      obtain r where r: "extendMatch input candidate i (matchLen + 1) = Some r"
        "matchLen + 1 \<le> r" "r \<le> lzMaxMatch" "i + r \<le> int (length input)"
        "\<forall>k. matchLen + 1 \<le> k \<and> k < r \<longrightarrow> input ! nat (candidate + k) = input ! nat (i + k)"
        by auto
      have "\<forall>k. matchLen \<le> k \<and> k < r \<longrightarrow> input ! nat (candidate + k) = input ! nat (i + k)"
      proof (intro allI impI)
        fix k assume "matchLen \<le> k \<and> k < r"
        then consider "k = matchLen" | "matchLen + 1 \<le> k \<and> k < r" by linarith
        then show "input ! nat (candidate + k) = input ! nat (i + k)"
          using eq r(5) by cases auto
      qed
      moreover have "extendMatch input candidate i matchLen = Some r"
        using True e eq r(1) by (subst extendMatch.simps) simp
      ultimately show ?thesis using r by auto
    next
      case neq: False
      have "extendMatch input candidate i matchLen = Some matchLen"
        using True e neq by (subst extendMatch.simps) simp
      then show ?thesis using "1.prems" by auto
    qed
  next
    case False
    have "extendMatch input candidate i matchLen = Some matchLen"
      using False by (subst extendMatch.simps) auto
    then show ?thesis using "1.prems" by auto
  qed
qed

lemma copyMatch_spec:
  assumes "0 \<le> c" "c < i" "0 \<le> j" "j \<le> ml" "i + ml \<le> int (length xs)"
    "\<forall>k. 0 \<le> k \<and> k < ml \<longrightarrow> xs ! nat (c + k) = xs ! nat (i + k)"
    "out = take (nat (i + j)) xs"
  shows "copyMatch out c j ml = Some (take (nat (i + ml)) xs)"
  using assms
proof (induction out c j ml rule: copyMatch.induct)
  case (1 out start j len)
  show ?case
  proof (cases "j < len")
    case True
    have len_out: "int (length out) = i + j" using "1.prems" True by simp
    have rd: "at out (start + j) = Some (xs ! nat (i + j))"
    proof -
      have "at out (start + j) = Some (out ! nat (start + j))"
        using "1.prems" len_out by (intro at_in_range) auto
      moreover have "out ! nat (start + j) = xs ! nat (start + j)"
        using "1.prems" by simp
      moreover have "xs ! nat (start + j) = xs ! nat (i + j)"
        using "1.prems" True by simp
      ultimately show ?thesis by simp
    qed
    have nxt: "out @ [xs ! nat (i + j)] = take (nat (i + (j + 1))) xs"
    proof -
      have "nat (i + (j + 1)) = Suc (nat (i + j))" using "1.prems" by simp
      moreover have "nat (i + j) < length xs" using "1.prems" True by simp
      ultimately show ?thesis using "1.prems"(7) by (simp add: take_Suc_conv_app_nth)
    qed
    have "copyMatch (out @ [xs ! nat (i + j)]) start (j + 1) len = Some (take (nat (i + len)) xs)"
    proof (rule "1.IH" [OF True rd])
      show "j + 1 \<le> len" using True by simp
      show "0 \<le> j + 1" using "1.prems" by simp
    qed (use "1.prems" nxt in blast)+
    then show ?thesis using True rd by (subst copyMatch.simps) simp
  next
    case False
    then have "j = len" using "1.prems" by simp
    then show ?thesis using "1.prems" by (subst copyMatch.simps) simp
  qed
qed

lemma offset_bytes:
  assumes "0 \<le> off" "off < 65536"
  shows "uint (word_of_int (off AND 0xFF) :: byte) OR push_bit 8 (uint (word_of_int (drop_bit 8 off) :: byte)) = off"
proof -
  have a: "uint (word_of_int (off AND 0xFF) :: byte) = take_bit 8 off"
    by (simp add: uint_word_of_int_eq take_bit_eq_mask mask_eq_exp_minus_1)
  have "drop_bit 8 off < 256" using assms by (simp add: drop_bit_eq_div)
  moreover have "0 \<le> drop_bit 8 off" using assms by simp
  ultimately have b: "uint (word_of_int (drop_bit 8 off) :: byte) = drop_bit 8 off"
    by (simp add: uint_word_of_int_eq take_bit_int_eq_self)
  have "take_bit 8 off OR push_bit 8 (drop_bit 8 off) = off"
  proof (rule bit_eqI)
    fix n
    show "bit (take_bit 8 off OR push_bit 8 (drop_bit 8 off)) n \<longleftrightarrow> bit off n"
    proof (cases "n < 8")
      case True
      then show ?thesis by (simp add: bit_simps)
    next
      case False
      then have "8 + (n - 8) = n" by simp
      with False show ?thesis by (simp add: bit_simps)
    qed
  qed
  then show ?thesis unfolding a b .
qed

lemma len_byte:
  assumes "0 \<le> ml" "ml \<le> 255"
  shows "uint (word_of_int ml :: byte) = ml"
  using assms by (simp add: uint_word_of_int_eq take_bit_int_eq_self)

lemma lzLoop_covers:
  assumes "length table = hashSize" "\<forall>e\<in>set table. -1 \<le> e" "0 \<le> i" "i \<le> int (length input)"
  shows "\<exists>ts. lzLoop input table i out toks = Some (out @ concat (map emit ts), toks @ ts) \<and>
              covers input i ts"
  using assms
proof (induction input table i out toks rule: lzLoop.induct)
  case (1 input table i out toks)
  note inv = "1.prems"
  show ?case
  proof (cases "i < int (length input)")
    case False
    then have "i = int (length input)" using inv by simp
    then have "lzLoop input table i out toks = Some (out @ concat (map emit []), toks @ [])"
      by (subst lzLoop.simps) simp
    moreover have "covers input i []" using \<open>i = int (length input)\<close> by simp
    ultimately show ?thesis by blast
  next
    case lt: True
    have rd0: "at input i = Some (input ! nat i)" using lt inv by (simp add: at_in_range)
    show ?thesis
    proof (cases "i + lzMinMatch > int (length input)")
      case tail: True
      let ?t = "Literal (input ! nat i)"
      have "\<exists>ts. lzLoop input table (i + 1) (out @ emit ?t) (toks @ [?t]) =
              Some ((out @ emit ?t) @ concat (map emit ts), (toks @ [?t]) @ ts) \<and>
              covers input (i + 1) ts"
        using inv lt by (intro "1.IH"(1) [OF lt tail rd0]) auto
      then obtain ts where ts:
        "lzLoop input table (i + 1) (out @ emit ?t) (toks @ [?t]) =
           Some ((out @ emit ?t) @ concat (map emit ts), (toks @ [?t]) @ ts)"
        "covers input (i + 1) ts" by blast
      have "lzLoop input table i out toks = Some (out @ concat (map emit (?t # ts)), toks @ (?t # ts))"
        using lt tail rd0 ts(1) by (subst lzLoop.simps) simp
      moreover have "covers input i (?t # ts)" using lt inv ts(2) by simp
      ultimately show ?thesis by blast
    next
      case main: False
      then have i4: "i + 4 \<le> int (length input)" by (simp add: lzMinMatch_def)
      have rd1: "at input (i + 1) = Some (input ! nat (i + 1))"
        and rd2: "at input (i + 2) = Some (input ! nat (i + 2))"
        and rd3: "at input (i + 3) = Some (input ! nat (i + 3))"
        using i4 inv by (simp_all add: at_in_range)
      define h where "h = uint (lzHash (input ! nat i) (input ! nat (i + 1)) (input ! nat (i + 2)) (input ! nat (i + 3)))"
      have hr: "0 \<le> h" "h < int (length table)"
        using lzHash_range inv(1) by (simp_all add: h_def)
      define candidate where "candidate = table ! nat h"
      have cand: "at table h = Some candidate" using hr by (simp add: at_in_range candidate_def)
      have cand_ge: "-1 \<le> candidate" using inv(2) hr by (simp add: candidate_def)
      define table' where "table' = table[nat h := i]"
      have inv': "length table' = hashSize" "\<forall>e\<in>set table'. -1 \<le> e"
      proof -
        show "length table' = hashSize" using inv(1) by (simp add: table'_def)
        have "set table' \<subseteq> insert i (set table)"
          unfolding table'_def by (rule set_update_subset_insert)
        then show "\<forall>e\<in>set table'. -1 \<le> e" using inv(2,3) by auto
      qed
      define guard where "guard \<longleftrightarrow> candidate \<noteq> -1 \<and> i - candidate < lzWindowSize \<and> i - candidate > 0"
      define found where "found \<longleftrightarrow> guard \<and> (\<forall>k\<in>{0..<4}. input ! nat (candidate + k) = input ! nat (i + k))"
      have fnd: "(if candidate \<noteq> -1 \<and> i - candidate < lzWindowSize \<and> i - candidate > 0
                  then match4 input candidate i else Some False) = Some found"
      proof (cases guard)
        case True
        then have "0 \<le> candidate" "candidate < i" using cand_ge by (auto simp: guard_def)
        from match4_in_range [OF this i4] True show ?thesis by (simp add: found_def guard_def)
      next
        case False
        then show ?thesis by (auto simp: found_def guard_def)
      qed
      show ?thesis
      proof (cases found)
        case True
        then have g: "0 \<le> candidate" "candidate < i" "i - candidate < lzWindowSize"
          and m4: "\<forall>k\<in>{0..<4}. input ! nat (candidate + k) = input ! nat (i + k)"
          using cand_ge by (auto simp: found_def guard_def)
        from extendMatch_spec [OF g(1,2) _ _ i4]
        obtain ml where ml: "extendMatch input candidate i 4 = Some ml" "4 \<le> ml" "ml \<le> lzMaxMatch"
          "i + ml \<le> int (length input)"
          "\<forall>k. 4 \<le> k \<and> k < ml \<longrightarrow> input ! nat (candidate + k) = input ! nat (i + k)"
          by (auto simp: lzMaxMatch_def)
        have eqs: "\<forall>k. 0 \<le> k \<and> k < ml \<longrightarrow> input ! nat (i - (i - candidate) + k) = input ! nat (i + k)"
        proof (intro allI impI)
          fix k :: int assume k: "0 \<le> k \<and> k < ml"
          show "input ! nat (i - (i - candidate) + k) = input ! nat (i + k)"
          proof (cases "k < 4")
            case True
            with k have "k \<in> {0..<4}" by simp
            with m4 show ?thesis by simp
          next
            case False
            with k ml(5) show ?thesis by simp
          qed
        qed
        let ?t = "Match (i - candidate) ml"
        have "\<exists>ts. lzLoop input table' (i + ml) (out @ emit ?t) (toks @ [?t]) =
              Some ((out @ emit ?t) @ concat (map emit ts), (toks @ [?t]) @ ts) \<and>
              covers input (i + ml) ts"
          using inv' inv ml
          by (intro "1.IH"(2) [OF lt main rd0 rd1 rd2 rd3 h_def cand table'_def fnd True ml(1) refl]) auto
        then obtain ts where ts:
          "lzLoop input table' (i + ml) (out @ emit ?t) (toks @ [?t]) =
             Some ((out @ emit ?t) @ concat (map emit ts), (toks @ [?t]) @ ts)"
          "covers input (i + ml) ts" by blast
        have "lzLoop input table i out toks = Some (out @ concat (map emit (?t # ts)), toks @ (?t # ts))"
          using lt main rd0 rd1 rd2 rd3 cand fnd True ml(1) ts(1)
          by (subst lzLoop.simps) (simp add: h_def [symmetric] table'_def [symmetric] Let_def)
        moreover have "covers input i (?t # ts)"
          using g ml eqs ts(2) by simp
        ultimately show ?thesis by blast
      next
        case False
        let ?t = "Literal (input ! nat i)"
        have "\<exists>ts. lzLoop input table' (i + 1) (out @ emit ?t) (toks @ [?t]) =
              Some ((out @ emit ?t) @ concat (map emit ts), (toks @ [?t]) @ ts) \<and>
              covers input (i + 1) ts"
          using inv' inv lt
          by (intro "1.IH"(3) [OF lt main rd0 rd1 rd2 rd3 h_def cand table'_def fnd False rd0]) auto
        then obtain ts where ts:
          "lzLoop input table' (i + 1) (out @ emit ?t) (toks @ [?t]) =
             Some ((out @ emit ?t) @ concat (map emit ts), (toks @ [?t]) @ ts)"
          "covers input (i + 1) ts" by blast
        have "lzLoop input table i out toks = Some (out @ concat (map emit (?t # ts)), toks @ (?t # ts))"
          using lt main rd0 rd1 rd2 rd3 cand fnd False ts(1)
          by (subst lzLoop.simps) (simp add: h_def [symmetric] table'_def [symmetric] Let_def)
        moreover have "covers input i (?t # ts)" using lt inv ts(2) by simp
        ultimately show ?thesis by blast
      qed
    qed
  qed
qed

lemma decLoop_covers:
  assumes "covers xs i ts" "0 \<le> i"
  shows "decLoop (concat (map emit ts)) (take (nat i) xs) = Inr xs"
  using assms
proof (induction ts arbitrary: i)
  case Nil
  then show ?case by simp
next
  case (Cons t ts)
  show ?case
  proof (cases t)
    case (Literal b)
    with Cons.prems have b: "0 \<le> i" "i < int (length xs)" "b = xs ! nat i" "covers xs (i + 1) ts"
      by simp_all
    have "take (nat i) xs @ [b] = take (nat (i + 1)) xs"
    proof -
      have "nat (i + 1) = Suc (nat i)" using b(1) by simp
      moreover have "nat i < length xs" using b(1,2) by simp
      ultimately show ?thesis using b(3) by (simp add: take_Suc_conv_app_nth)
    qed
    moreover have "decLoop (concat (map emit ts)) (take (nat (i + 1)) xs) = Inr xs"
      using b by (intro Cons.IH) auto
    ultimately show ?thesis using Literal by simp
  next
    case (Match off ml)
    with Cons.prems have m: "1 \<le> off" "off \<le> i" "off < lzWindowSize" "4 \<le> ml" "ml \<le> lzMaxMatch"
      "i + ml \<le> int (length xs)"
      "\<forall>k. 0 \<le> k \<and> k < ml \<longrightarrow> xs ! nat (i - off + k) = xs ! nat (i + k)"
      "covers xs (i + ml) ts"
      by simp_all
    have off: "uint (word_of_int (off AND 0xFF) :: byte) OR
               push_bit 8 (uint (word_of_int (drop_bit 8 off) :: byte)) = off"
      using m(1,3) by (intro offset_bytes) (simp_all add: lzWindowSize_def)
    have len: "uint (word_of_int ml :: byte) = ml"
      using m(4,5) by (intro len_byte) (simp_all add: lzMaxMatch_def)
    have lo: "int (length (take (nat i) xs)) = i" using m(4,6) Cons.prems(2) by simp
    have cp: "copyMatch (take (nat i) xs) (i - off) 0 ml = Some (take (nat (i + ml)) xs)"
      using m Cons.prems(2) by (intro copyMatch_spec [where i = i]) auto
    have rest: "decLoop (concat (map emit ts)) (take (nat (i + ml)) xs) = Inr xs"
      using m Cons.prems(2) by (intro Cons.IH) auto
    show ?thesis
      using m(1,2) by (simp add: Match off len lo cp rest Let_def del: length_take)
  qed
qed

lemma lzRun_covers:
  "\<exists>ts. lzRun xs = Some (concat (map emit ts), ts) \<and> covers xs 0 ts"
proof (cases "length xs = 0")
  case True
  then have "lzRun xs = Some (concat (map emit []), [])" "covers xs 0 []"
    by (simp_all add: lzRun_def)
  then show ?thesis by blast
next
  case False
  have "\<exists>ts. lzLoop xs (replicate hashSize (-1)) 0 [] [] = Some ([] @ concat (map emit ts), [] @ ts) \<and>
          covers xs 0 ts"
    by (rule lzLoop_covers) simp_all
  with False show ?thesis by (simp add: lzRun_def)
qed

lemma roundtrip_tokens:
  assumes "covers xs 0 ts"
  shows "lzDecompressTokens (concat (map emit ts)) (int (length xs)) = Inr xs"
proof -
  have d: "decLoop (concat (map emit ts)) [] = Inr xs"
    using decLoop_covers [OF assms] by simp
  show ?thesis
  proof (cases "length (concat (map emit ts)) = 0 \<and> int (length xs) = 0")
    case True
    then show ?thesis by (simp add: lzDecompressTokens_def)
  next
    case False
    then show ?thesis using d by (auto simp: lzDecompressTokens_def)
  qed
qed

lemma ex5: "lzRun [0, 0, 0, 0, 0] = Some ([0, 0, 1, 1, 0, 4], [Literal 0, Match 1 4])"
  by (simp add: lzRun_def lzLoop.simps extendMatch.simps match4_def eqAt_def at_def lzHash_def
      hashSize_def hashBits_def lzMinMatch_def lzMaxMatch_def lzWindowSize_def Let_def)

lemma covers_match:
  assumes "covers xs i ts" "k < length ts" "ts ! k = Match off ml"
  shows "1 \<le> off \<and> off \<le> i + sum_list (map tokenSpan (take k ts)) \<and> off < lzWindowSize \<and>
         4 \<le> ml \<and> ml \<le> lzMaxMatch"
  using assms
proof (induction ts arbitrary: i k)
  case Nil
  then show ?case by simp
next
  case (Cons t ts)
  show ?case
  proof (cases k)
    case 0
    with Cons.prems show ?thesis by simp
  next
    case (Suc k')
    have cv: "covers xs (i + tokenSpan t) ts"
      using Cons.prems(1) by (cases t) simp_all
    from Cons.IH [OF cv, of k'] Cons.prems Suc
    show ?thesis by (simp add: add.assoc)
  qed
qed

lemma extendMatch_replicate:
  assumes "0 \<le> c" "c < i" "0 \<le> m" "m \<le> 255" "i + m \<le> int n"
  shows "extendMatch (replicate n z) c i m = Some (min 255 (int n - i))"
  using assms
proof (induction "replicate n z" c i m rule: extendMatch.induct)
  case (1 candidate i matchLen)
  show ?case
  proof (cases "i + matchLen < int n \<and> matchLen < 255")
    case True
    then have cond: "i + matchLen < int (length (replicate n z)) \<and>
        candidate + matchLen < int (length (replicate n z)) \<and> matchLen < lzMaxMatch"
      using "1.prems" by (simp add: lzMaxMatch_def)
    have "nat (candidate + matchLen) < n" "nat (i + matchLen) < n"
      using True "1.prems" by linarith+
    then have e: "eqAt (replicate n z) (candidate + matchLen) (i + matchLen) = Some True"
      using cond "1.prems" by (simp add: eqAt_def at_def)
    have "extendMatch (replicate n z) candidate i (matchLen + 1) = Some (min 255 (int n - i))"
      using "1.prems" True by (intro "1.hyps" [OF cond e]) auto
    then show ?thesis using cond e by (subst extendMatch.simps) simp
  next
    case False
    then have "extendMatch (replicate n z) candidate i matchLen = Some matchLen"
      by (subst extendMatch.simps) (auto simp: lzMaxMatch_def)
    moreover have "matchLen = min 255 (int n - i)" using False "1.prems" by auto
    ultimately show ?thesis by simp
  qed
qed

lemma zeros_at: "0 \<le> i \<Longrightarrow> i < 1024 \<Longrightarrow> at (replicate 1024 (0::byte)) i = Some 0"
  by (simp add: at_def)

lemma zeros_match4: "0 \<le> c \<Longrightarrow> c < i \<Longrightarrow> i + 4 \<le> 1024 \<Longrightarrow> match4 (replicate 1024 (0::byte)) c i = Some True"
  by (simp add: match4_def eqAt_def at_def)

lemma zeros_hash: "uint (lzHash 0 0 0 0) = 0" "unat (lzHash 0 0 0 0) = 0"
  by (simp_all add: lzHash_def)

lemma zeros_step_match:
  assumes "0 \<le> c" "c < i" "i - c < 65535" "i + 4 \<le> 1024" "at table 0 = Some c"
  shows "lzLoop (replicate 1024 (0::byte)) table i out toks =
         lzLoop (replicate 1024 (0::byte)) (table[0 := i]) (i + min 255 (1024 - i))
           (out @ emit (Match (i - c) (min 255 (1024 - i)))) (toks @ [Match (i - c) (min 255 (1024 - i))])"
proof -
  have em: "extendMatch (replicate 1024 (0::byte)) c i 4 = Some (min 255 (1024 - i))"
    using extendMatch_replicate [of c i 4 1024 "0::byte"] assms by simp
  have rd: "at (replicate 1024 (0::byte)) i = Some 0" "at (replicate 1024 (0::byte)) (i + 1) = Some 0"
    "at (replicate 1024 (0::byte)) (i + 2) = Some 0" "at (replicate 1024 (0::byte)) (i + 3) = Some 0"
    using assms by (simp_all add: zeros_at)
  have m4: "match4 (replicate 1024 (0::byte)) c i = Some True"
    using assms by (simp add: zeros_match4)
  show ?thesis
    using assms
    by (subst lzLoop.simps)
      (simp add: rd m4 em zeros_hash lzMinMatch_def lzWindowSize_def Let_def del: emit.simps)
qed

lemma zeros_step_tail:
  assumes "0 \<le> i" "i < 1024" "i + 4 > 1024"
  shows "lzLoop (replicate 1024 (0::byte)) table i out toks =
         lzLoop (replicate 1024 (0::byte)) table (i + 1) (out @ emit (Literal 0)) (toks @ [Literal 0])"
  using assms by (subst lzLoop.simps) (simp add: zeros_at lzMinMatch_def del: emit.simps)

lemma zeros_step_first:
  "lzLoop (replicate 1024 (0::byte)) (replicate hashSize (-1)) 0 out toks =
   lzLoop (replicate 1024 (0::byte)) ((replicate hashSize (-1))[0 := 0]) 1
     (out @ emit (Literal 0)) (toks @ [Literal 0])"
  by (subst lzLoop.simps)
    (simp add: zeros_at zeros_hash at_def hashSize_def hashBits_def lzMinMatch_def del: emit.simps)

lemma zeros_done:
  "lzLoop (replicate 1024 (0::byte)) table 1024 out toks = Some (out, toks)"
  by (subst lzLoop.simps) simp

lemma at_upd0: "0 < length table \<Longrightarrow> at (table[0 := v]) 0 = Some v"
  by (simp add: at_def)

lemma zeros_run:
  "lzRun (replicate 1024 (0::byte)) =
     Some ([0, 0, 1, 1, 0, 255, 1, 255, 0, 255, 1, 255, 0, 255, 1, 255, 0, 255, 0, 0, 0, 0, 0, 0],
           [Literal 0, Match 1 255, Match 255 255, Match 255 255, Match 255 255,
            Literal 0, Literal 0, Literal 0])"
proof -
  let ?T0 = "replicate hashSize (-1::int)"
  have l0: "0 < length ?T0" by (simp add: hashSize_def)
  have s1: "lzLoop (replicate 1024 0) (?T0[0 := 0]) 1 out toks =
            lzLoop (replicate 1024 0) (?T0[0 := 1]) 256 (out @ emit (Match 1 255)) (toks @ [Match 1 255])"
    for out toks
    using zeros_step_match [of 0 1 "?T0[0 := 0]" out toks] l0 by (simp add: at_def)
  have s2: "lzLoop (replicate 1024 0) (?T0[0 := 1]) 256 out toks =
            lzLoop (replicate 1024 0) (?T0[0 := 256]) 511 (out @ emit (Match 255 255)) (toks @ [Match 255 255])"
    for out toks
    using zeros_step_match [of 1 256 "?T0[0 := 1]" out toks] l0 by (simp add: at_def)
  have s3: "lzLoop (replicate 1024 0) (?T0[0 := 256]) 511 out toks =
            lzLoop (replicate 1024 0) (?T0[0 := 511]) 766 (out @ emit (Match 255 255)) (toks @ [Match 255 255])"
    for out toks
    using zeros_step_match [of 256 511 "?T0[0 := 256]" out toks] l0 by (simp add: at_def)
  have s4: "lzLoop (replicate 1024 0) (?T0[0 := 511]) 766 out toks =
            lzLoop (replicate 1024 0) (?T0[0 := 766]) 1021 (out @ emit (Match 255 255)) (toks @ [Match 255 255])"
    for out toks
    using zeros_step_match [of 511 766 "?T0[0 := 511]" out toks] l0 by (simp add: at_def)
  have s5: "lzLoop (replicate 1024 0) table 1021 out toks =
            Some (out @ emit (Literal 0) @ emit (Literal 0) @ emit (Literal 0), toks @ [Literal 0, Literal 0, Literal 0])"
    for table out toks
    using zeros_step_tail [of 1021 table] zeros_step_tail [of 1022 table] zeros_step_tail [of 1023 table]
    by (simp add: zeros_done)
  show ?thesis
    by (simp add: lzRun_def zeros_step_first s1 s2 s3 s4 s5)
qed

lemma copyMatch_total:
  assumes "0 \<le> start + j" "start + j < int (length out)" "0 \<le> j"
  shows "\<exists>out'. copyMatch out start j len = Some out' \<and>
           int (length out') = int (length out) + max 0 (len - j) \<and> take (length out) out' = out"
  using assms
proof (induction out start j len rule: copyMatch.induct)
  case (1 out start j len)
  show ?case
  proof (cases "j < len")
    case True
    have rd: "at out (start + j) = Some (out ! nat (start + j))"
      using "1.prems" by (simp add: at_in_range)
    let ?out = "out @ [out ! nat (start + j)]"
    have "\<exists>out'. copyMatch ?out start (j + 1) len = Some out' \<and>
           int (length out') = int (length ?out) + max 0 (len - (j + 1)) \<and>
           take (length ?out) out' = ?out"
      using "1.prems" by (intro "1.IH" [OF True rd]) auto
    then obtain out' where o: "copyMatch ?out start (j + 1) len = Some out'"
      "int (length out') = int (length ?out) + max 0 (len - (j + 1))"
      "take (length ?out) out' = ?out" by blast
    have "copyMatch out start j len = Some out'"
      using True rd o(1) by (subst copyMatch.simps) simp
    moreover have "int (length out') = int (length out) + max 0 (len - j)"
      using o(2) True by simp
    moreover have "take (length out) out' = out"
    proof -
      have "take (length out) out' = take (length out) (take (length ?out) out')"
        by (simp add: min_def)
      also have "\<dots> = out" by (simp only: o(3)) simp
      finally show ?thesis .
    qed
    ultimately show ?thesis by blast
  next
    case False
    then have "copyMatch out start j len = Some out" by (subst copyMatch.simps) simp
    then show ?thesis using False by simp
  qed
qed

section \<open>Properties of the container header\<close>

lemma length_leBytes [simp]: "length (leBytes n w) = n"
  by (induction n arbitrary: w) simp_all

lemma leWord_leBytes:
  fixes w :: "'a::len word"
  shows "(leWord (leBytes n w) :: 'a word) = take_bit (8 * n) w"
proof (induction n arbitrary: w)
  case 0
  then show ?case by simp
next
  case (Suc n)
  have "(ucast (ucast w :: byte) :: 'a word) OR push_bit 8 (take_bit (8 * n) (drop_bit 8 w)) =
        take_bit (8 * Suc n) w"
  proof (rule bit_eqI)
    fix k
    show "bit ((ucast (ucast w :: byte) :: 'a word) OR push_bit 8 (take_bit (8 * n) (drop_bit 8 w))) k
          \<longleftrightarrow> bit (take_bit (8 * Suc n) w) k"
    proof (cases "k < 8")
      case True
      then show ?thesis by (auto simp: bit_simps dest: bit_imp_le_length)
    next
      case False
      then have "8 + (k - 8) = k" by simp
      with False show ?thesis by (auto simp: bit_simps dest: bit_imp_le_length)
    qed
  qed
  with Suc show ?case by simp
qed

lemma leWord_leBytes_id:
  fixes w :: "'a::len word"
  assumes "LENGTH('a) \<le> 8 * n"
  shows "(leWord (leBytes n w) :: 'a word) = w"
  using assms by (simp add: leWord_leBytes take_bit_word_eq_self)

lemma readFull_append: "length xs = n \<Longrightarrow> readFull n (xs @ r) = Inr (xs, r)"
  by (simp add: readFull_def)

lemma writeSizes_spec:
  assumes "length sizes = unat n" "i \<le> n"
  shows "writeSizes w sizes i n = Some (w @ concat (map (leBytes 8) (drop (unat i) sizes)))"
  using assms
proof (induction w sizes i n rule: writeSizes.induct)
  case (1 w sizes i n)
  show ?case
  proof (cases "i < n")
    case True
    note s = unat_succ_less [OF True]
    have "uint i < uint n" using True by (simp add: word_less_def)
    moreover have "uint n = int (length sizes)" using "1.prems"(1) by simp
    ultimately have "uint i < int (length sizes)" by simp
    then have rd: "at sizes (uint i) = Some (sizes ! unat i)"
      by (simp add: at_def)
    have le: "i + 1 \<le> n" using s by (simp add: word_le_nat_alt)
    have "writeSizes (w @ leBytes 8 (sizes ! unat i)) sizes (i + 1) n =
          Some ((w @ leBytes 8 (sizes ! unat i)) @ concat (map (leBytes 8) (drop (unat (i + 1)) sizes)))"
      by (rule "1.IH" [OF True rd "1.prems"(1) le])
    moreover have "drop (unat i) sizes = sizes ! unat i # drop (unat (i + 1)) sizes"
      using s "1.prems"(1) by (simp add: Cons_nth_drop_Suc)
    ultimately show ?thesis using True rd by (subst writeSizes.simps) simp
  next
    case False
    with "1.prems" have "i = n" by simp
    then show ?thesis using "1.prems"(1) by (subst writeSizes.simps) simp
  qed
qed

lemma readSizes_spec:
  assumes "length sizes = unat n" "i \<le> n"
    "bs = take (unat i) sizes @ replicate (unat n - unat i) 0"
  shows "readSizes (concat (map (leBytes 8) (drop (unat i) sizes)) @ r) bs i n = Inr (sizes, r)"
  using assms
proof (induction "concat (map (leBytes 8) (drop (unat i) sizes)) @ r" bs i n rule: readSizes.induct)
  case (1 blockSizes i n)
  show ?case
  proof (cases "i < n")
    case True
    note s = unat_succ_less [OF True]
    have dr: "drop (unat i) sizes = sizes ! unat i # drop (unat (i + 1)) sizes"
      using s "1.prems"(1) by (simp add: Cons_nth_drop_Suc)
    let ?r' = "concat (map (leBytes 8) (drop (unat (i + 1)) sizes)) @ r"
    have rd: "readFull 8 (concat (map (leBytes 8) (drop (unat i) sizes)) @ r) =
              Inr (leBytes 8 (sizes ! unat i), ?r')"
      by (simp only: dr) (simp add: readFull_append)
    have le: "i + 1 \<le> n" using s by (simp add: word_le_nat_alt)
    have v: "(leWord (leBytes 8 (sizes ! unat i)) :: 64 word) = sizes ! unat i"
      by (rule leWord_leBytes_id) simp
    have upd: "blockSizes[unat i := sizes ! unat i] =
               take (unat (i + 1)) sizes @ replicate (unat n - unat (i + 1)) 0"
    proof -
      have "unat n - unat i = Suc (unat n - unat (i + 1))" using s by simp
      then have "blockSizes = take (unat i) sizes @ 0 # replicate (unat n - unat (i + 1)) 0"
        using "1.prems"(3) by simp
      moreover have "length (take (unat i) sizes) = unat i" using s "1.prems"(1) by simp
      ultimately have "blockSizes[unat i := sizes ! unat i] =
          take (unat i) sizes @ sizes ! unat i # replicate (unat n - unat (i + 1)) 0"
        by (simp add: list_update_append)
      moreover have "take (unat (i + 1)) sizes = take (unat i) sizes @ [sizes ! unat i]"
        using s "1.prems"(1) by (simp add: take_Suc_conv_app_nth)
      ultimately show ?thesis by simp
    qed
    have "readSizes ?r' (blockSizes[unat i := leWord (leBytes 8 (sizes ! unat i))]) (i + 1) n =
          Inr (sizes, r)"
      using "1.prems"(1) le upd
      by (intro "1.hyps" [OF True rd refl]) (simp_all add: v)
    then show ?thesis using True rd by (subst readSizes.simps) simp
  next
    case False
    with "1.prems" have "i = n" by simp
    then show ?thesis using "1.prems" by (subst readSizes.simps) simp
  qed
qed


lemma leBytes_2: "leBytes 2 w = [ucast w, ucast (drop_bit 8 w)]"
proof -
  have "leBytes (Suc (Suc 0)) w = [ucast w, ucast (drop_bit 8 w)]" by simp
  then show ?thesis by (simp only: numeral_2_eq_2)
qed

lemma leBytes_4: "leBytes 4 w = leBytes 2 w @ leBytes 2 (drop_bit 16 w)"
proof -
  have "leBytes (Suc (Suc (Suc (Suc 0)))) w = leBytes (Suc (Suc 0)) w @ leBytes (Suc (Suc 0)) (drop_bit 16 w)"
    by simp
  moreover have "(4::nat) = Suc (Suc (Suc (Suc 0)))" by simp
  ultimately show ?thesis by (simp only: numeral_2_eq_2)
qed

lemma leBytes_8: "leBytes 8 w = leBytes 4 w @ leBytes 4 (drop_bit 32 w)"
proof -
  have "leBytes (Suc (Suc (Suc (Suc (Suc (Suc (Suc (Suc 0)))))))) w =
        leBytes (Suc (Suc (Suc (Suc 0)))) w @ leBytes (Suc (Suc (Suc (Suc 0)))) (drop_bit 32 w)"
    by simp
  moreover have "(4::nat) = Suc (Suc (Suc (Suc 0)))" by simp
  moreover have "(8::nat) = Suc (Suc (Suc (Suc (Suc (Suc (Suc (Suc 0)))))))" by simp
  ultimately show ?thesis by (simp only:)
qed


section \<open>Properties of the BSP partition\<close>

lemma quo_nonneg: "0 \<le> a \<Longrightarrow> 0 < b \<Longrightarrow> quo a b = a div b"
  by (simp add: quo_def)

lemma rem_nonneg: "0 \<le> a \<Longrightarrow> 0 < b \<Longrightarrow> rem a b = a mod b"
  by (simp add: rem_def quo_nonneg minus_mult_div_eq_mod)

lemma bspThreads_eq: "bspThreads threads numBlocks = min (max threads 1) numBlocks"
  by (auto simp: bspThreads_def Let_def)

lemma bspChunkSize_props:
  assumes "1 \<le> t" "t \<le> n"
  shows "1 \<le> bspChunkSize n t" "n \<le> t * bspChunkSize n t" "t * (bspChunkSize n t - 1) < n"
proof -
  have c: "bspChunkSize n t = (if n mod t \<noteq> 0 then n div t + 1 else n div t)"
    using assms by (simp add: bspChunkSize_def Let_def quo_nonneg rem_nonneg)
  have "0 < n div t" using assms by (simp add: pos_imp_zdiv_pos_iff)
  then have d: "1 \<le> n div t" by simp
  have e: "n = t * (n div t) + n mod t" by simp
  have m: "0 \<le> n mod t" "n mod t < t" using assms by simp_all
  have t1: "t * (n div t + 1) = t * (n div t) + t" by (simp add: algebra_simps)
  have t2: "t * (n div t - 1) = t * (n div t) - t" by (simp add: algebra_simps)
  show "1 \<le> bspChunkSize n t" using c d by auto
  show "n \<le> t * bspChunkSize n t"
  proof (cases "n mod t = 0")
    case True
    with c e show ?thesis by simp
  next
    case False
    from t1 e m have "n \<le> t * (n div t + 1)" by linarith
    with c False show ?thesis by simp
  qed
  show "t * (bspChunkSize n t - 1) < n"
  proof (cases "n mod t = 0")
    case True
    from t2 e True assms have "t * (n div t - 1) < n" by linarith
    with c True show ?thesis by simp
  next
    case False
    with m have "0 < n mod t" by simp
    with e have "t * (n div t) < n" by linarith
    with c False show ?thesis by simp
  qed
qed


lemma bspOwned_eq:
  assumes "1 \<le> numBlocks" "0 \<le> w"
  shows "bspOwned numBlocks threads w =
         {w * bspChunkSize numBlocks (bspThreads threads numBlocks) ..<
          min ((w + 1) * bspChunkSize numBlocks (bspThreads threads numBlocks)) numBlocks}"
proof -
  let ?c = "bspChunkSize numBlocks (bspThreads threads numBlocks)"
  have e: "(w + 1) * ?c = w * ?c + ?c" by (simp add: algebra_simps)
  show ?thesis
  proof (cases "w * ?c \<ge> numBlocks")
    case True
    then show ?thesis using assms by (simp add: bspOwned_def bspRange_def Let_def)
  next
    case False
    then show ?thesis by (auto simp: bspOwned_def bspRange_def Let_def e)
  qed
qed

lemma chunk_index:
  fixes c :: int
  assumes "1 \<le> c" "w * c \<le> idx" "idx < (w + 1) * c"
  shows "w = idx div c"
proof -
  have "idx = c * w + (idx - w * c)" by (simp add: algebra_simps)
  moreover have "0 \<le> idx - w * c" "idx - w * c < c" using assms by (simp_all add: algebra_simps)
  ultimately have "idx div c = w" by (rule int_div_pos_eq)
  then show ?thesis by simp
qed


section \<open>Properties of the decompression drivers\<close>

lemma malformed_header:
  "ReadHeader [0x50, 0x43, 0x5A, 0x32, 0, 0, 5, 0, 0, 0, 0, 0, 0, 0, 0, 0x10, 0, 0,
               0, 0, 0, 0, 0, 0, 0, 0] =
   Inr (\<lparr>Filename = [], OriginalSize = 5, BlockSize = 4096, NumBlocks = 0, BlockCompSizes = []\<rparr>, [])"
  by (simp add: ReadHeader_def readFull_def magic_def readSizes.simps)


text \<open>
  The drivers on a container that holds the five bytes 1 to 5 as one raw block.
\<close>

lemma small_container_header:
  "ReadHeader [0x50, 0x43, 0x5A, 0x32, 0, 0, 5, 0, 0, 0, 0, 0, 0, 0, 0, 0x10, 0, 0,
               1, 0, 0, 0, 0, 0, 0, 0, 6, 0, 0, 0, 0, 0, 0, 0, 0xFF, 1, 2, 3, 4, 5] =
   Inr (\<lparr>Filename = [], OriginalSize = 5, BlockSize = 4096, NumBlocks = 1, BlockCompSizes = [6]\<rparr>,
        [0xFF, 1, 2, 3, 4, 5])"
  by (simp add: ReadHeader_def readFull_def magic_def readSizes.simps)

lemma small_container_sequential:
  "SequentialDecompressFile
     [0x50, 0x43, 0x5A, 0x32, 0, 0, 5, 0, 0, 0, 0, 0, 0, 0, 0, 0x10, 0, 0,
      1, 0, 0, 0, 0, 0, 0, 0, 6, 0, 0, 0, 0, 0, 0, 0, 0xFF, 1, 2, 3, 4, 5] =
   (Some [1, 2, 3, 4, 5], None)"
  by (simp add: SequentialDecompressFile_def small_container_header seqBlocks.simps at_def
      readFull_def decodeBlock_def expectedSize_def wrap64_def)

lemma h_fields:
  "sint (5 :: 64 word) = 5" "sint (1 :: 64 word) = 1" "uint (4096 :: 32 word) = 4096"
  "unat (6 :: 64 word) = 6" "uint (0 :: 64 word) = 0" "uint (6 :: 64 word) = 6"
  by simp_all

lemma small_offsets:
  "blockOffsets [6] (replicate (nat 1) 0) 0 1 0 = Some [0]"
  by (simp add: blockOffsets.simps at_def)

lemma small_block:
  "parBlock \<lparr>Filename = [], OriginalSize = 5, BlockSize = 4096, NumBlocks = 1, BlockCompSizes = [6]\<rparr>
     [0xFF, 1, 2, 3, 4, 5] [0] 0 [0, 0, 0, 0, 0] = Inr [1, 2, 3, 4, 5]"
  by (simp add: parBlock_def at_def slice_def decodeBlock_def wrap64_def copyInto_def)

lemma five_zeros: "replicate (nat 5) (0::byte) = [0, 0, 0, 0, 0]"
  by (simp add: numeral_eq_Suc)

lemma small_blocks:
  "parBlocks \<lparr>Filename = [], OriginalSize = 5, BlockSize = 4096, NumBlocks = 1, BlockCompSizes = [6]\<rparr>
     [0xFF, 1, 2, 3, 4, 5] [0] 0 [0, 0, 0, 0, 0] = Inr [1, 2, 3, 4, 5]"
  by (subst parBlocks.simps, simp add: small_block, subst parBlocks.simps, simp)

lemma small_container_parallel:
  "BSPDecompressFile
     [0x50, 0x43, 0x5A, 0x32, 0, 0, 5, 0, 0, 0, 0, 0, 0, 0, 0, 0x10, 0, 0,
      1, 0, 0, 0, 0, 0, 0, 0, 6, 0, 0, 0, 0, 0, 0, 0, 0xFF, 1, 2, 3, 4, 5] 4 =
   (Some [1, 2, 3, 4, 5], None) \<and>
   WorkStealingDecompressFile
     [0x50, 0x43, 0x5A, 0x32, 0, 0, 5, 0, 0, 0, 0, 0, 0, 0, 0, 0x10, 0, 0,
      1, 0, 0, 0, 0, 0, 0, 0, 6, 0, 0, 0, 0, 0, 0, 0, 0xFF, 1, 2, 3, 4, 5] 4 =
   (Some [1, 2, 3, 4, 5], None)"
proof -
  let ?h = "\<lparr>Filename = [], OriginalSize = 5, BlockSize = 4096, NumBlocks = 1, BlockCompSizes = [6]\<rparr>"
  have "parDecompress ?h [0xFF, 1, 2, 3, 4, 5] = (Some [1, 2, 3, 4, 5], None)"
    using small_offsets small_blocks five_zeros
    by (simp add: parDecompress_def totalSize_def readFull_def)
  then show ?thesis
    by (simp add: BSPDecompressFile_def WorkStealingDecompressFile_def small_container_header)
qed


text \<open>A block written by the mode rule is read back by the mode switch.\<close>

lemma block_round_trip:
  "\<exists>mode data'. encodeBlock buf = Some (mode # data') \<and>
      decodeBlock idx mode data' (int (length buf)) = Inr buf"
proof -
  from lzRun_covers [of buf] obtain ts
    where r: "lzRun buf = Some (concat (map emit ts), ts)" and c: "covers buf 0 ts" by blast
  let ?tokens = "concat (map emit ts)"
  have t: "lzCompressTokens buf = Some ?tokens" using r by (simp add: lzCompressTokens_def)
  have d: "lzDecompressTokens ?tokens (int (length buf)) = Inr buf" using c by (rule roundtrip_tokens)
  show ?thesis
  proof (cases "length ?tokens < length buf")
    case True
    then have "encodeBlock buf = Some (0x00 # ?tokens)" using t by (simp add: encodeBlock_def)
    moreover have "decodeBlock idx 0x00 ?tokens (int (length buf)) = Inr buf"
      using d by (simp add: decodeBlock_def)
    ultimately show ?thesis by blast
  next
    case False
    then have "encodeBlock buf = Some (0xFF # buf)" using t by (simp add: encodeBlock_def)
    moreover have "decodeBlock idx 0xFF buf (int (length buf)) = Inr buf"
      by (simp add: decodeBlock_def)
    ultimately show ?thesis by blast
  qed
qed


section \<open>Properties of the work-stealing deque\<close>

lemma spread_init: "spread x0 1 x0"
  by (auto simp: spread_def le_less_Suc_eq)

lemma spread_step:
  assumes "spread x0 w x"
  shows "spread x0 (2 * w) (x OR drop_bit w x)"
  unfolding spread_def
proof (intro allI iffI)
  fix i
  assume "bit (x OR drop_bit w x) i"
  then consider "bit x i" | "bit x (w + i)" by (auto simp: bit_simps)
  then show "\<exists>j. i \<le> j \<and> j < i + 2 * w \<and> bit x0 j"
  proof cases
    case 1
    with assms obtain j where "i \<le> j" "j < i + w" "bit x0 j" by (auto simp: spread_def)
    then show ?thesis by (intro exI [of _ j]) simp
  next
    case 2
    with assms obtain j where "w + i \<le> j" "j < w + i + w" "bit x0 j" by (auto simp: spread_def)
    then show ?thesis by (intro exI [of _ j]) simp
  qed
next
  fix i
  assume "\<exists>j. i \<le> j \<and> j < i + 2 * w \<and> bit x0 j"
  then obtain j where j: "i \<le> j" "j < i + 2 * w" "bit x0 j" by blast
  show "bit (x OR drop_bit w x) i"
  proof (cases "j < i + w")
    case True
    with j assms have "bit x i" by (auto simp: spread_def)
    then show ?thesis by (simp add: bit_simps)
  next
    case False
    with j have "w + i \<le> j" "j < w + i + w" by simp_all
    with j(3) assms have "bit x (w + i)" unfolding spread_def by blast
    then show ?thesis by (simp add: bit_simps)
  qed
qed

lemma spread_mask:
  assumes sp: "spread x0 64 x" and hi: "\<forall>j\<ge>m. \<not> bit x0 j" and m: "m < 64"
  shows "\<exists>k\<le>m. x = mask k \<and> x0 \<le> mask k"
proof -
  define k where "k = (LEAST k. \<forall>j\<ge>k. \<not> bit x0 j)"
  have kz: "\<forall>j\<ge>k. \<not> bit x0 j" unfolding k_def using hi by (rule LeastI)
  have km: "k \<le> m" unfolding k_def using hi by (rule Least_le)
  have below: "\<exists>j\<ge>i. bit x0 j" if "i < k" for i
  proof (rule ccontr)
    assume "\<not> (\<exists>j\<ge>i. bit x0 j)"
    then have "\<forall>j\<ge>i. \<not> bit x0 j" by blast
    then have "k \<le> i" unfolding k_def by (rule Least_le)
    with that show False by simp
  qed
  have bx: "bit x i \<longleftrightarrow> i < k" for i
  proof
    assume "bit x i"
    with sp obtain j where "i \<le> j" "bit x0 j" by (auto simp: spread_def)
    with kz show "i < k" by (meson not_le_imp_less order_trans)
  next
    assume "i < k"
    from below [OF this] obtain j where j: "i \<le> j" "bit x0 j" by blast
    then have "j < 64" by (auto dest: bit_imp_le_length)
    with j have "i \<le> j \<and> j < i + 64 \<and> bit x0 j" by simp
    with sp show "bit x i" unfolding spread_def by blast
  qed
  have xm: "x = mask k"
  proof (rule bit_word_eqI)
    fix i assume "i < LENGTH(64)"
    then show "bit x i \<longleftrightarrow> bit (mask k :: 64 word) i" by (simp add: bx bit_simps)
  qed
  have "x0 AND mask k = x0"
  proof (rule bit_word_eqI)
    fix i assume "i < LENGTH(64)"
    have "i < k" if "bit x0 i"
    proof (rule ccontr)
      assume "\<not> i < k"
      then have "k \<le> i" by simp
      with kz that show False by blast
    qed
    then show "bit (x0 AND mask k) i \<longleftrightarrow> bit x0 i"
      using \<open>i < LENGTH(64)\<close> by (auto simp: bit_simps)
  qed
  moreover have "x0 AND mask k \<le> mask k" by (rule word_and_le1)
  ultimately have "x0 \<le> mask k" by simp
  with km xm show ?thesis by blast
qed

lemma nextPow2_power:
  assumes "1 \<le> n" "n \<le> 2 ^ 62"
  shows "\<exists>k\<le>62. nextPow2 n = 2 ^ k \<and> n \<le> 2 ^ k"
proof -
  define x0 where "x0 = (word_of_int (n - 1) :: 64 word)"
  define x where "x = (let x = x0; x = x OR drop_bit 1 x; x = x OR drop_bit 2 x;
      x = x OR drop_bit 4 x; x = x OR drop_bit 8 x; x = x OR drop_bit 16 x in x OR drop_bit 32 x)"
  have np: "nextPow2 n = sint (x + 1)" by (simp add: nextPow2_def x_def x0_def Let_def)
  have v: "0 \<le> n - 1" "n - 1 < 2 ^ 62" using assms by simp_all
  have "uint (word_of_int (n - 1) :: 64 word) = take_bit LENGTH(64) (n - 1)"
    by (rule uint_word_of_int_eq)
  also have "\<dots> = n - 1" using v by (intro take_bit_int_eq_self) simp_all
  finally have ux: "uint x0 = n - 1" by (simp only: x0_def)
  have hi: "\<forall>j\<ge>62. \<not> bit x0 j"
  proof (intro allI impI)
    fix j :: nat assume "62 \<le> j"
    have "take_bit 62 (n - 1) = n - 1" using v by (simp add: take_bit_int_eq_self)
    then have "bit (n - 1) j \<longleftrightarrow> bit (take_bit 62 (n - 1)) j" by simp
    with \<open>62 \<le> j\<close> have "\<not> bit (n - 1) j" by (simp add: bit_take_bit_iff)
    then show "\<not> bit x0 j" unfolding x0_def by (simp only: bit_word_of_int_iff) simp
  qed
  have "spread x0 64 x"
    using spread_step [OF spread_step [OF spread_step [OF spread_step [OF spread_step
      [OF spread_step [OF spread_init [of x0]]]]]]]
    by (simp add: x_def Let_def)
  from spread_mask [OF this hi] obtain k where k: "k \<le> 62" "x = mask k" "x0 \<le> mask k" by auto
  have x1: "x + 1 = 2 ^ k" by (simp add: k(2) mask_eq_decr_exp)
  have s: "sint (2 ^ k :: 64 word) = 2 ^ k"
  proof -
    have "(2::int) ^ k \<le> 2 ^ 62" using k(1) by (intro power_increasing) simp_all
    then have "(2::int) ^ k < 2 ^ 63" by simp
    moreover have "(2 ^ k :: 64 word) = word_of_int (2 ^ k)" by simp
    moreover have "- (2 ^ 63) \<le> (2::int) ^ k"
    proof -
      have "(0::int) \<le> 2 ^ k" by simp
      moreover have "- (2 ^ 63) \<le> (0::int)" by simp
      ultimately show ?thesis by (rule order_trans [rotated])
    qed
    ultimately have "signed_take_bit 63 ((2::int) ^ k) = 2 ^ k"
      by (intro signed_take_bit_int_eq_self) simp_all
    then show ?thesis by (simp only: \<open>(2 ^ k :: 64 word) = word_of_int (2 ^ k)\<close> sint_sbintrunc') simp
  qed
  have "uint x0 \<le> uint (mask k :: 64 word)" using k(3) by (simp add: word_le_def)
  also have "uint (mask k :: 64 word) = 2 ^ k - 1"
  proof -
    have "min LENGTH(64) k = k" using k(1) by simp
    then have "uint (mask k :: 64 word) = (mask k :: int)" by (simp only: uint_mask_eq)
    then show ?thesis by (simp only: mask_eq_exp_minus_1)
  qed
  finally have "n \<le> 2 ^ k" using ux by simp
  with np x1 s k(1) show ?thesis by auto
qed


lemma NewWSDeque_initial:
  assumes "capacity \<le> 2 ^ 62"
  shows "\<exists>k\<le>62. NewWSDeque capacity = initial k \<and> capacity \<le> 2 ^ k"
proof -
  define n where "n = (if capacity \<le> 0 then 1 else capacity)"
  have "1 \<le> n" "n \<le> 2 ^ 62" using assms by (simp_all add: n_def)
  from nextPow2_power [OF this] obtain k where k: "k \<le> 62" "nextPow2 n = 2 ^ k" "n \<le> 2 ^ k"
    by blast
  have "nat ((2::int) ^ k) = 2 ^ k" by (simp add: nat_power_eq)
  moreover have "nat ((2::int) ^ k - 1) = 2 ^ k - 1" by (simp add: nat_diff_distrib nat_power_eq)
  ultimately have "NewWSDeque capacity = initial k"
    by (simp add: NewWSDeque_def initial_def Let_def n_def [symmetric] k(2))
  moreover have "capacity \<le> n" by (simp add: n_def)
  then have "capacity \<le> 2 ^ k" using k(3) by (rule order_trans)
  ultimately show ?thesis using k(1) by blast
qed

lemma and_mask_mod: "(j::nat) AND (2 ^ k - 1) = j mod 2 ^ k"
proof -
  have "(2::nat) ^ k - 1 = mask k" by (simp only: mask_eq_exp_minus_1)
  then have "j AND (2 ^ k - 1) = take_bit k j" by (simp only: take_bit_eq_mask)
  then show ?thesis by (simp only: take_bit_eq_mod)
qed

lemma masked_index_less: "(j::nat) AND (2 ^ k - 1) < 2 ^ k"
  by (simp only: and_mask_mod) simp

lemma masked_index_distinct:
  fixes j b :: nat
  assumes "j < b" "b - j < 2 ^ k"
  shows "j AND (2 ^ k - 1) \<noteq> b AND (2 ^ k - 1)"
proof
  assume "j AND (2 ^ k - 1) = b AND (2 ^ k - 1)"
  then have "b mod 2 ^ k = j mod 2 ^ k" by (simp only: and_mask_mod)
  then have "(2::nat) ^ k dvd b - j" using assms(1) by (simp add: mod_eq_dvd_iff_nat)
  then have "2 ^ k \<le> b - j" using assms(1) by (intro dvd_imp_le) simp_all
  with assms(2) show False by simp
qed

lemma slot_upd [simp]:
  "slot (c\<lparr>owner := x\<rparr>) = slot c" "slot (c\<lparr>thief := y\<rparr>) = slot c"
  "slot (c\<lparr>pushed := p\<rparr>) = slot c" "slot (c\<lparr>returned := r\<rparr>) = slot c"
  "slot (c\<lparr>d_top := t\<rparr>) = slot c" "slot (c\<lparr>d_bottom := b\<rparr>) = slot c"
  by (rule ext, simp add: slot_def)+

lemma thief_ok_preserved:
  assumes "thief_ok tp lb v pc" "tp \<le> tp'"
    "tp' = tp \<Longrightarrow> tp < lb \<Longrightarrow> tp < lb' \<and> v' = v"
  shows "thief_ok tp' lb' v' pc"
  using assms by (cases pc) auto

lemma thieves_preserved:
  assumes "\<forall>i. thief_ok (d_top c) (logicalBottom c) (slot c (d_top c)) (thief c i)"
    "thief c' = thief c" "d_top c \<le> d_top c'"
    "d_top c' = d_top c \<Longrightarrow> d_top c < logicalBottom c \<Longrightarrow>
       d_top c < logicalBottom c' \<and> slot c' (d_top c) = slot c (d_top c)"
  shows "\<forall>i. thief_ok (d_top c') (logicalBottom c') (slot c' (d_top c')) (thief c' i)"
proof
  fix i
  from assms(1) have "thief_ok (d_top c) (logicalBottom c) (slot c (d_top c)) (thief c i)" ..
  then have "thief_ok (d_top c') (logicalBottom c') (slot c' (d_top c')) (thief c i)"
    by (rule thief_ok_preserved [OF _ assms(3)]) (use assms(4) in auto)
  then show "thief_ok (d_top c') (logicalBottom c') (slot c' (d_top c')) (thief c' i)"
    by (simp add: assms(2))
qed

lemma thieves_updated:
  assumes "\<forall>i. thief_ok (d_top c) (logicalBottom c) (slot c (d_top c)) (thief c i)"
    "thief c' = (thief c)(j := pc)" "d_top c \<le> d_top c'"
    "d_top c' = d_top c \<Longrightarrow> d_top c < logicalBottom c \<Longrightarrow>
       d_top c < logicalBottom c' \<and> slot c' (d_top c) = slot c (d_top c)"
    "thief_ok (d_top c') (logicalBottom c') (slot c' (d_top c')) pc"
  shows "\<forall>i. thief_ok (d_top c') (logicalBottom c') (slot c' (d_top c')) (thief c' i)"
proof
  fix i
  show "thief_ok (d_top c') (logicalBottom c') (slot c' (d_top c')) (thief c' i)"
  proof (cases "i = j")
    case True
    then show ?thesis using assms(5) by (simp add: assms(2))
  next
    case False
    from assms(1) have "thief_ok (d_top c) (logicalBottom c) (slot c (d_top c)) (thief c i)" ..
    then have "thief_ok (d_top c') (logicalBottom c') (slot c' (d_top c')) (thief c i)"
      by (rule thief_ok_preserved [OF _ assms(3)]) (use assms(4) in auto)
    then show ?thesis using False by (simp add: assms(2))
  qed
qed

lemma bottom_le_logicalBottom:
  "owner_ok c (owner c) \<Longrightarrow> d_bottom c \<le> logicalBottom c"
  by (cases "owner c") (auto simp: logicalBottom_def)

lemma dq_inv_initial: "dq_inv k (initial k)"
  by (simp add: dq_inv_def initial_def logicalBottom_def content_def inflight_def)

lemma content_push:
  assumes "length (d_tasks c) = 2 ^ k" "d_mask c = 2 ^ k - 1" "b - d_top c < 2 ^ k" "lb \<le> b"
  shows "map (\<lambda>j. (d_tasks c)[b AND d_mask c := task] ! (j AND d_mask c)) [d_top c ..< lb] =
         map (\<lambda>j. d_tasks c ! (j AND d_mask c)) [d_top c ..< lb]"
proof (rule map_cong [OF refl])
  fix j assume "j \<in> set [d_top c ..< lb]"
  then have j: "d_top c \<le> j" "j < b" using assms(4) by simp_all
  then have "b - j < 2 ^ k" using assms(3) by simp
  from masked_index_distinct [OF j(2) this]
  show "(d_tasks c)[b AND d_mask c := task] ! (j AND d_mask c) = d_tasks c ! (j AND d_mask c)"
    by (simp add: assms(2))
qed

lemma logicalBottom_cong:
  "owner c' = owner c \<Longrightarrow> d_bottom c' = d_bottom c \<Longrightarrow> logicalBottom c' = logicalBottom c"
  by (simp add: logicalBottom_def split: owner_pc.splits)

lemma inflight_cong:
  "owner c' = owner c \<Longrightarrow> slot c' = slot c \<Longrightarrow> inflight c' = inflight c"
  by (simp add: inflight_def split: owner_pc.splits)

lemma owner_ok_cong:
  assumes "d_bottom c' = d_bottom c" "d_top c' = d_top c" "d_tasks c' = d_tasks c" "slot c' = slot c"
  shows "owner_ok c' pc = owner_ok c pc"
  using assms by (cases pc) simp_all

lemma owner_ok_steal:
  assumes "owner_ok c pc" "owner c = pc" "d_top c < logicalBottom c"
    "d_bottom c' = d_bottom c" "d_top c' = Suc (d_top c)" "d_tasks c' = d_tasks c" "slot c' = slot c"
  shows "owner_ok c' pc"
  using assms by (cases pc) (auto simp: logicalBottom_def)

lemma dq_inv_step:
  assumes inv: "dq_inv k c" and st: "step c c'"
  shows "dq_inv k c'"
proof -
  from inv have len: "length (d_tasks c) = 2 ^ k" and msk: "d_mask c = 2 ^ k - 1"
    and tl: "d_top c \<le> logicalBottom c" and ok: "owner_ok c (owner c)"
    and th: "\<forall>i. thief_ok (d_top c) (logicalBottom c) (slot c (d_top c)) (thief c i)"
    and ms: "mset (pushed c) = mset (returned c) + mset (content c) + inflight c"
    by (simp_all add: dq_inv_def)
  from st show ?thesis
  proof cases
    case (push_load task)
    then have f: "d_tasks c' = d_tasks c" "d_mask c' = d_mask c" "d_top c' = d_top c"
      "d_bottom c' = d_bottom c" "owner c' = Push1 task (d_bottom c)" "thief c' = thief c"
      "pushed c' = pushed c" "returned c' = returned c" "slot c' = slot c"
      by simp_all
    have lb: "logicalBottom c = d_bottom c" "logicalBottom c' = d_bottom c"
      by (simp_all add: logicalBottom_def f push_load)
    have ct: "content c' = content c" by (simp add: content_def f lb)
    have fl: "inflight c = {#}" "inflight c' = {#}" by (simp_all add: inflight_def f push_load)
    have "\<forall>i. thief_ok (d_top c') (logicalBottom c') (slot c' (d_top c')) (thief c' i)"
      using th by (rule thieves_preserved) (simp_all add: f lb)
    then show ?thesis
      using len msk tl ms push_load(3) by (simp add: dq_inv_def f lb ct fl)
  next
    case (push_write task b)
    then have f: "d_tasks c' = (d_tasks c)[b AND d_mask c := task]" "d_mask c' = d_mask c"
      "d_top c' = d_top c" "d_bottom c' = d_bottom c" "owner c' = Push2 task b" "thief c' = thief c"
      "pushed c' = pushed c" "returned c' = returned c"
      by simp_all
    from ok push_write have b: "b = d_bottom c" "b - d_top c < 2 ^ k" by (auto simp: len)
    have lb: "logicalBottom c = b" "logicalBottom c' = b"
      using b by (simp_all add: logicalBottom_def f push_write)
    have sl: "slot c' j = slot c j" if "d_top c \<le> j" "j < b" for j
    proof -
      from that b(2) have "b - j < 2 ^ k" by simp
      from masked_index_distinct [OF that(2) this] show ?thesis
        by (simp add: slot_def f msk)
    qed
    have ct: "content c' = content c"
      using content_push [OF len msk b(2), of b task]
      by (simp add: content_def slot_def f lb)
    have fl: "inflight c = {#}" "inflight c' = {#}" by (simp_all add: inflight_def f push_write)
    have sb: "slot c' b = task"
      using masked_index_less [of b k] by (simp add: slot_def f msk len)
    have "\<forall>i. thief_ok (d_top c') (logicalBottom c') (slot c' (d_top c')) (thief c' i)"
      using th
    proof (rule thieves_preserved)
      show "thief c' = thief c" "d_top c \<le> d_top c'" by (simp_all add: f)
      show "d_top c < logicalBottom c' \<and> slot c' (d_top c) = slot c (d_top c)"
        if "d_top c < logicalBottom c" using that sl [of "d_top c"] lb by simp
    qed
    then show ?thesis
      using len msk tl ms b sb by (simp add: dq_inv_def f lb ct fl)
  next
    case (push_store task b)
    then have f: "d_tasks c' = d_tasks c" "d_mask c' = d_mask c" "d_top c' = d_top c"
      "d_bottom c' = b + 1" "owner c' = OIdle" "thief c' = thief c"
      "pushed c' = pushed c @ [task]" "returned c' = returned c" "slot c' = slot c"
      by simp_all
    from ok push_store have b: "b = d_bottom c" "b - d_top c < 2 ^ k" "slot c b = task"
      by (auto simp: len)
    have lb: "logicalBottom c = b" "logicalBottom c' = b + 1"
      using b by (simp_all add: logicalBottom_def f push_store)
    have ct: "content c' = content c @ [task]"
      using tl b(3) by (simp add: content_def f lb)
    have fl: "inflight c = {#}" "inflight c' = {#}" by (simp_all add: inflight_def f push_store)
    have "\<forall>i. thief_ok (d_top c') (logicalBottom c') (slot c' (d_top c')) (thief c' i)"
      using th by (rule thieves_preserved) (simp_all add: f lb)
    then show ?thesis
      using len msk tl ms by (simp add: dq_inv_def f lb ct fl)
  next
    case pop_load_zero
    with inv show ?thesis by simp
  next
    case pop_load
    then have f: "d_tasks c' = d_tasks c" "d_mask c' = d_mask c" "d_top c' = d_top c"
      "d_bottom c' = d_bottom c" "owner c' = Pop1 (d_bottom c - 1)" "thief c' = thief c"
      "pushed c' = pushed c" "returned c' = returned c" "slot c' = slot c"
      by simp_all
    have lb: "logicalBottom c = d_bottom c" "logicalBottom c' = d_bottom c"
      by (simp_all add: logicalBottom_def f pop_load)
    have ct: "content c' = content c" by (simp add: content_def f lb)
    have fl: "inflight c = {#}" "inflight c' = {#}" by (simp_all add: inflight_def f pop_load)
    have "\<forall>i. thief_ok (d_top c') (logicalBottom c') (slot c' (d_top c')) (thief c' i)"
      using th by (rule thieves_preserved) (simp_all add: f lb)
    then show ?thesis
      using len msk tl ms pop_load(3) by (simp add: dq_inv_def f lb ct fl)
  next
    case (pop_store b)
    then have f: "d_tasks c' = d_tasks c" "d_mask c' = d_mask c" "d_top c' = d_top c"
      "d_bottom c' = b" "owner c' = Pop2 b" "thief c' = thief c"
      "pushed c' = pushed c" "returned c' = returned c" "slot c' = slot c"
      by simp_all
    from ok pop_store have o: "d_bottom c = b + 1" by simp
    have lb: "logicalBottom c = b + 1" "logicalBottom c' = b + 1"
      using o by (simp_all add: logicalBottom_def f pop_store)
    have ct: "content c' = content c" by (simp add: content_def f lb)
    have fl: "inflight c = {#}" "inflight c' = {#}" by (simp_all add: inflight_def f pop_store)
    have "\<forall>i. thief_ok (d_top c') (logicalBottom c') (slot c' (d_top c')) (thief c' i)"
      using th by (rule thieves_preserved) (simp_all add: f lb)
    then show ?thesis
      using len msk tl ms by (simp add: dq_inv_def f lb ct fl)
  next
    case (pop_load_top b)
    then have f: "d_tasks c' = d_tasks c" "d_mask c' = d_mask c" "d_top c' = d_top c"
      "d_bottom c' = d_bottom c" "owner c' = Pop3 b (d_top c)" "thief c' = thief c"
      "pushed c' = pushed c" "returned c' = returned c" "slot c' = slot c"
      by simp_all
    from ok pop_load_top have o: "d_bottom c = b" by simp
    have lb: "logicalBottom c = b + 1" "logicalBottom c' = (if d_top c < b then b else b + 1)"
      by (simp_all add: logicalBottom_def f pop_load_top)
    have fl: "inflight c = {#}" "inflight c' = (if d_top c < b then {#slot c b#} else {#})"
      by (simp_all add: inflight_def f pop_load_top)
    have ct: "mset (content c) = mset (content c') + inflight c'"
      by (simp add: content_def f lb fl)
    have "\<forall>i. thief_ok (d_top c') (logicalBottom c') (slot c' (d_top c')) (thief c' i)"
      using th by (rule thieves_preserved) (use tl in \<open>auto simp: f lb\<close>)
    then show ?thesis
      using len msk tl ms o ct by (auto simp: dq_inv_def f lb fl)
  next
    case (pop_read b t)
    then have f: "d_tasks c' = d_tasks c" "d_mask c' = d_mask c" "d_top c' = d_top c"
      "d_bottom c' = d_bottom c" "owner c' = Pop4 b t (slot c b)" "thief c' = thief c"
      "pushed c' = pushed c" "returned c' = returned c" "slot c' = slot c"
      by simp_all
    from ok pop_read have o: "d_bottom c = b" "t \<le> d_top c" by simp_all
    have lb: "logicalBottom c' = logicalBottom c"
      by (simp add: logicalBottom_def f pop_read)
    have ct: "content c' = content c" by (simp add: content_def f lb)
    have fl: "inflight c' = inflight c" by (simp add: inflight_def f pop_read)
    have "\<forall>i. thief_ok (d_top c') (logicalBottom c') (slot c' (d_top c')) (thief c' i)"
      using th by (rule thieves_preserved) (simp_all add: f lb)
    then show ?thesis
      using len msk tl ms o pop_read(3) by (simp add: dq_inv_def f lb ct fl)
  next
    case (pop_empty b t)
    then have f: "d_tasks c' = d_tasks c" "d_mask c' = d_mask c" "d_top c' = d_top c"
      "d_bottom c' = b + 1" "owner c' = OIdle" "thief c' = thief c"
      "pushed c' = pushed c" "returned c' = returned c" "slot c' = slot c"
      by simp_all
    have lb: "logicalBottom c = b + 1" "logicalBottom c' = b + 1"
      using pop_empty(3) by (simp_all add: logicalBottom_def f pop_empty(2))
    have ct: "content c' = content c" by (simp add: content_def f lb)
    have fl: "inflight c = {#}" "inflight c' = {#}"
      using pop_empty(3) by (simp_all add: inflight_def f pop_empty(2))
    have "\<forall>i. thief_ok (d_top c') (logicalBottom c') (slot c' (d_top c')) (thief c' i)"
      using th by (rule thieves_preserved) (simp_all add: f lb)
    then show ?thesis
      using len msk tl ms by (simp add: dq_inv_def f lb ct fl)
  next
    case (pop_take b t task)
    then have f: "d_tasks c' = d_tasks c" "d_mask c' = d_mask c" "d_top c' = d_top c"
      "d_bottom c' = d_bottom c" "owner c' = OIdle" "thief c' = thief c"
      "pushed c' = pushed c" "returned c' = returned c @ [task]" "slot c' = slot c"
      by simp_all
    from ok pop_take have o: "d_bottom c = b" "t < b" by simp_all
    have lb: "logicalBottom c = b" "logicalBottom c' = b"
      using o by (simp_all add: logicalBottom_def f pop_take(2))
    have ct: "content c' = content c" by (simp add: content_def f lb)
    have fl: "inflight c = {#task#}" "inflight c' = {#}"
      using o by (simp_all add: inflight_def f pop_take(2))
    have "\<forall>i. thief_ok (d_top c') (logicalBottom c') (slot c' (d_top c')) (thief c' i)"
      using th by (rule thieves_preserved) (simp_all add: f lb)
    then show ?thesis
      using len msk tl ms by (simp add: dq_inv_def f lb ct fl)
  next
    case (pop_cas_ok b t task)
    then have f: "d_tasks c' = d_tasks c" "d_mask c' = d_mask c" "d_top c' = b + 1"
      "d_bottom c' = d_bottom c" "owner c' = Pop5 b task True" "thief c' = thief c"
      "pushed c' = pushed c" "returned c' = returned c" "slot c' = slot c"
      by simp_all
    from ok pop_cas_ok have o: "d_bottom c = b" "d_top c = b" "task = slot c b" by simp_all
    have lb: "logicalBottom c = b + 1" "logicalBottom c' = b + 1"
      by (simp_all add: logicalBottom_def f pop_cas_ok(2,3))
    have ct: "content c = [task]" "content c' = []" by (simp_all add: content_def f lb o)
    have fl: "inflight c = {#}" "inflight c' = {#task#}"
      by (simp_all add: inflight_def f pop_cas_ok(2,3))
    have "\<forall>i. thief_ok (d_top c') (logicalBottom c') (slot c' (d_top c')) (thief c' i)"
      using th by (rule thieves_preserved) (simp_all add: f lb o)
    then show ?thesis
      using len msk ms o by (simp add: dq_inv_def f lb ct fl)
  next
    case (pop_cas_fail b t task)
    then have f: "d_tasks c' = d_tasks c" "d_mask c' = d_mask c" "d_top c' = d_top c"
      "d_bottom c' = d_bottom c" "owner c' = Pop5 b task False" "thief c' = thief c"
      "pushed c' = pushed c" "returned c' = returned c" "slot c' = slot c"
      by simp_all
    from ok pop_cas_fail have o: "d_bottom c = b" "b \<le> d_top c" by simp_all
    have lb: "logicalBottom c = b + 1" "logicalBottom c' = b + 1"
      by (simp_all add: logicalBottom_def f pop_cas_fail(2,3))
    from tl lb o pop_cas_fail(3,4) have tp: "d_top c = b + 1" by simp
    have ct: "content c' = content c" by (simp add: content_def f lb)
    have fl: "inflight c = {#}" "inflight c' = {#}"
      by (simp_all add: inflight_def f pop_cas_fail(2,3))
    have "\<forall>i. thief_ok (d_top c') (logicalBottom c') (slot c' (d_top c')) (thief c' i)"
      using th by (rule thieves_preserved) (simp_all add: f lb)
    then show ?thesis
      using len msk tl ms o tp by (simp add: dq_inv_def f lb ct fl)
  next
    case (pop_restore_ok b task)
    then have f: "d_tasks c' = d_tasks c" "d_mask c' = d_mask c" "d_top c' = d_top c"
      "d_bottom c' = b + 1" "owner c' = OIdle" "thief c' = thief c"
      "pushed c' = pushed c" "returned c' = returned c @ [task]" "slot c' = slot c"
      by simp_all
    have lb: "logicalBottom c = b + 1" "logicalBottom c' = b + 1"
      by (simp_all add: logicalBottom_def f pop_restore_ok(2))
    have ct: "content c' = content c" by (simp add: content_def f lb)
    have fl: "inflight c = {#task#}" "inflight c' = {#}"
      by (simp_all add: inflight_def f pop_restore_ok(2))
    have "\<forall>i. thief_ok (d_top c') (logicalBottom c') (slot c' (d_top c')) (thief c' i)"
      using th by (rule thieves_preserved) (simp_all add: f lb)
    then show ?thesis
      using len msk tl ms by (simp add: dq_inv_def f lb ct fl)
  next
    case (pop_restore_fail b task)
    then have f: "d_tasks c' = d_tasks c" "d_mask c' = d_mask c" "d_top c' = d_top c"
      "d_bottom c' = b + 1" "owner c' = OIdle" "thief c' = thief c"
      "pushed c' = pushed c" "returned c' = returned c" "slot c' = slot c"
      by simp_all
    have lb: "logicalBottom c = b + 1" "logicalBottom c' = b + 1"
      by (simp_all add: logicalBottom_def f pop_restore_fail(2))
    have ct: "content c' = content c" by (simp add: content_def f lb)
    have fl: "inflight c = {#}" "inflight c' = {#}"
      by (simp_all add: inflight_def f pop_restore_fail(2))
    have "\<forall>i. thief_ok (d_top c') (logicalBottom c') (slot c' (d_top c')) (thief c' i)"
      using th by (rule thieves_preserved) (simp_all add: f lb)
    then show ?thesis
      using len msk tl ms by (simp add: dq_inv_def f lb ct fl)
  next
    case (steal_load_top i)
    then have f: "d_tasks c' = d_tasks c" "d_mask c' = d_mask c" "d_top c' = d_top c"
      "d_bottom c' = d_bottom c" "owner c' = owner c"
      "thief c' = (thief c)(i := Steal1 (d_top c))"
      "pushed c' = pushed c" "returned c' = returned c" "slot c' = slot c"
      by simp_all
    have lb: "logicalBottom c' = logicalBottom c" by (rule logicalBottom_cong) (simp_all add: f)
    have ct: "content c' = content c" by (simp add: content_def f lb)
    have fl: "inflight c' = inflight c" by (rule inflight_cong) (simp_all add: f)
    have oo: "owner_ok c' (owner c) = owner_ok c (owner c)"
      by (rule owner_ok_cong) (simp_all add: f)
    have "\<forall>i. thief_ok (d_top c') (logicalBottom c') (slot c' (d_top c')) (thief c' i)"
      using th by (rule thieves_updated [where j = i and pc = "Steal1 (d_top c)"]) (simp_all add: f lb)
    then show ?thesis
      using len msk tl ms ok by (simp add: dq_inv_def f lb ct fl oo)
  next
    case (steal_load_bottom i t)
    let ?pc = "if t \<ge> d_bottom c then TIdle else Steal2 t"
    from steal_load_bottom have f: "d_tasks c' = d_tasks c" "d_mask c' = d_mask c" "d_top c' = d_top c"
      "d_bottom c' = d_bottom c" "owner c' = owner c"
      "thief c' = (thief c)(i := ?pc)"
      "pushed c' = pushed c" "returned c' = returned c" "slot c' = slot c"
      by simp_all
    have lb: "logicalBottom c' = logicalBottom c" by (rule logicalBottom_cong) (simp_all add: f)
    have ct: "content c' = content c" by (simp add: content_def f lb)
    have fl: "inflight c' = inflight c" by (rule inflight_cong) (simp_all add: f)
    have oo: "owner_ok c' (owner c) = owner_ok c (owner c)"
      by (rule owner_ok_cong) (simp_all add: f)
    from th have "thief_ok (d_top c) (logicalBottom c) (slot c (d_top c)) (thief c i)" ..
    then have t: "t \<le> d_top c" by (simp add: steal_load_bottom(2))
    have pc: "thief_ok (d_top c) (logicalBottom c) (slot c (d_top c)) ?pc"
      using t bottom_le_logicalBottom [OF ok] by auto
    have "\<forall>i. thief_ok (d_top c') (logicalBottom c') (slot c' (d_top c')) (thief c' i)"
      using th by (rule thieves_updated [where j = i and pc = ?pc]) (use pc in \<open>simp_all add: f lb\<close>)
    then show ?thesis
      using len msk tl ms ok by (simp add: dq_inv_def f lb ct fl oo)
  next
    case (steal_read i t)
    then have f: "d_tasks c' = d_tasks c" "d_mask c' = d_mask c" "d_top c' = d_top c"
      "d_bottom c' = d_bottom c" "owner c' = owner c"
      "thief c' = (thief c)(i := Steal3 t (slot c t))"
      "pushed c' = pushed c" "returned c' = returned c" "slot c' = slot c"
      by simp_all
    have lb: "logicalBottom c' = logicalBottom c" by (rule logicalBottom_cong) (simp_all add: f)
    have ct: "content c' = content c" by (simp add: content_def f lb)
    have fl: "inflight c' = inflight c" by (rule inflight_cong) (simp_all add: f)
    have oo: "owner_ok c' (owner c) = owner_ok c (owner c)"
      by (rule owner_ok_cong) (simp_all add: f)
    from th have "thief_ok (d_top c) (logicalBottom c) (slot c (d_top c)) (thief c i)" ..
    then have pc: "thief_ok (d_top c) (logicalBottom c) (slot c (d_top c)) (Steal3 t (slot c t))"
      by (auto simp: steal_read(2))
    have "\<forall>i. thief_ok (d_top c') (logicalBottom c') (slot c' (d_top c')) (thief c' i)"
      using th by (rule thieves_updated [where j = i and pc = "Steal3 t (slot c t)"])
        (use pc in \<open>simp_all add: f lb\<close>)
    then show ?thesis
      using len msk tl ms ok by (simp add: dq_inv_def f lb ct fl oo)
  next
    case (steal_cas_ok i t task)
    then have f: "d_tasks c' = d_tasks c" "d_mask c' = d_mask c" "d_top c' = Suc (d_top c)"
      "d_bottom c' = d_bottom c" "owner c' = owner c"
      "thief c' = (thief c)(i := TIdle)"
      "pushed c' = pushed c" "returned c' = returned c @ [task]" "slot c' = slot c"
      by simp_all
    from th have "thief_ok (d_top c) (logicalBottom c) (slot c (d_top c)) (thief c i)" ..
    then have t: "d_top c < logicalBottom c" "task = slot c (d_top c)"
      by (simp_all add: steal_cas_ok(2,3))
    have lb: "logicalBottom c' = logicalBottom c" by (rule logicalBottom_cong) (simp_all add: f)
    have ct: "content c = task # content c'"
      using t by (simp add: content_def f lb upt_conv_Cons)
    have fl: "inflight c' = inflight c" by (rule inflight_cong) (simp_all add: f)
    have oo: "owner_ok c' (owner c)"
      using ok refl t(1) by (rule owner_ok_steal) (simp_all add: f)
    have "\<forall>i. thief_ok (d_top c') (logicalBottom c') (slot c' (d_top c')) (thief c' i)"
      using th by (rule thieves_updated [where j = i and pc = TIdle]) (simp_all add: f lb)
    then show ?thesis
      using len msk t ms oo by (simp add: dq_inv_def f lb ct fl)
  next
    case (steal_cas_fail i t task)
    then have f: "d_tasks c' = d_tasks c" "d_mask c' = d_mask c" "d_top c' = d_top c"
      "d_bottom c' = d_bottom c" "owner c' = owner c"
      "thief c' = (thief c)(i := TIdle)"
      "pushed c' = pushed c" "returned c' = returned c" "slot c' = slot c"
      by simp_all
    have lb: "logicalBottom c' = logicalBottom c" by (rule logicalBottom_cong) (simp_all add: f)
    have ct: "content c' = content c" by (simp add: content_def f lb)
    have fl: "inflight c' = inflight c" by (rule inflight_cong) (simp_all add: f)
    have oo: "owner_ok c' (owner c) = owner_ok c (owner c)"
      by (rule owner_ok_cong) (simp_all add: f)
    have "\<forall>i. thief_ok (d_top c') (logicalBottom c') (slot c' (d_top c')) (thief c' i)"
      using th by (rule thieves_updated [where j = i and pc = TIdle]) (simp_all add: f lb)
    then show ?thesis
      using len msk tl ms ok by (simp add: dq_inv_def f lb ct fl oo)
  qed
qed


lemma reachable_inv: "reachable k c \<Longrightarrow> dq_inv k c"
  by (induction rule: reachable.induct) (auto intro: dq_inv_initial dq_inv_step)

lemma step_top_mono: "step c c' \<Longrightarrow> d_top c \<le> d_top c'"
  by (induction rule: step.induct) simp_all

lemma steps_top_mono: "step\<^sup>*\<^sup>* c c' \<Longrightarrow> d_top c \<le> d_top c'"
  by (induction rule: rtranclp_induct) (auto dest: step_top_mono)

lemma distinct_of_submset:
  assumes "mset xs \<subseteq># mset ys" "distinct ys"
  shows "distinct xs"
proof -
  have "count (mset xs) a \<le> 1" for a
  proof -
    have "count (mset xs) a \<le> count (mset ys) a" using assms(1) by (rule mset_subset_eq_count)
    also have "\<dots> \<le> 1" using assms(2) by (simp add: distinct_count_atmost_1)
    finally show ?thesis .
  qed
  then show ?thesis unfolding distinct_count_atmost_1
    by (metis count_mset_0_iff le_antisym less_one not_le_imp_less not_less_iff_gr_or_eq order_refl le_zero_eq)
qed


lemma example_run:
  "reachable 1 two_pushed \<and> step\<^sup>*\<^sup>* two_pushed one_popped"
proof -
  let ?c0 = "\<lparr>d_tasks = [0, 0], d_mask = 1, d_top = 0, d_bottom = 0, owner = OIdle, thief = (\<lambda>i. TIdle), pushed = [], returned = []\<rparr>"
  let ?c1 = "\<lparr>d_tasks = [0, 0], d_mask = 1, d_top = 0, d_bottom = 0, owner = Push1 7 0, thief = (\<lambda>i. TIdle), pushed = [], returned = []\<rparr>"
  let ?c2 = "\<lparr>d_tasks = [7, 0], d_mask = 1, d_top = 0, d_bottom = 0, owner = Push2 7 0, thief = (\<lambda>i. TIdle), pushed = [], returned = []\<rparr>"
  let ?c3 = "\<lparr>d_tasks = [7, 0], d_mask = 1, d_top = 0, d_bottom = 1, owner = OIdle, thief = (\<lambda>i. TIdle), pushed = [7], returned = []\<rparr>"
  let ?c4 = "\<lparr>d_tasks = [7, 0], d_mask = 1, d_top = 0, d_bottom = 1, owner = Push1 8 1, thief = (\<lambda>i. TIdle), pushed = [7], returned = []\<rparr>"
  let ?c5 = "\<lparr>d_tasks = [7, 8], d_mask = 1, d_top = 0, d_bottom = 1, owner = Push2 8 1, thief = (\<lambda>i. TIdle), pushed = [7], returned = []\<rparr>"
  let ?c6 = "\<lparr>d_tasks = [7, 8], d_mask = 1, d_top = 0, d_bottom = 2, owner = OIdle, thief = (\<lambda>i. TIdle), pushed = [7, 8], returned = []\<rparr>"
  let ?c7 = "\<lparr>d_tasks = [7, 8], d_mask = 1, d_top = 0, d_bottom = 2, owner = Pop1 1, thief = (\<lambda>i. TIdle), pushed = [7, 8], returned = []\<rparr>"
  let ?c8 = "\<lparr>d_tasks = [7, 8], d_mask = 1, d_top = 0, d_bottom = 1, owner = Pop2 1, thief = (\<lambda>i. TIdle), pushed = [7, 8], returned = []\<rparr>"
  let ?c9 = "\<lparr>d_tasks = [7, 8], d_mask = 1, d_top = 0, d_bottom = 1, owner = Pop3 1 0, thief = (\<lambda>i. TIdle), pushed = [7, 8], returned = []\<rparr>"
  let ?c10 = "\<lparr>d_tasks = [7, 8], d_mask = 1, d_top = 0, d_bottom = 1, owner = Pop4 1 0 8, thief = (\<lambda>i. TIdle), pushed = [7, 8], returned = []\<rparr>"
  let ?c11 = "\<lparr>d_tasks = [7, 8], d_mask = 1, d_top = 0, d_bottom = 1, owner = OIdle, thief = (\<lambda>i. TIdle), pushed = [7, 8], returned = [8]\<rparr>"
  have i: "initial 1 = ?c0" by (simp add: initial_def numeral_2_eq_2)
  have s0: "step ?c0 ?c1" using step.push_load [of ?c0 7] by simp
  have s1: "step ?c1 ?c2" using step.push_write [of ?c1 7 0] by simp
  have s2: "step ?c2 ?c3" using step.push_store [of ?c2 7 0] by simp
  have s3: "step ?c3 ?c4" using step.push_load [of ?c3 8] by simp
  have s4: "step ?c4 ?c5" using step.push_write [of ?c4 8 1] by simp
  have s5: "step ?c5 ?c6" using step.push_store [of ?c5 8 1] by (simp add: numeral_2_eq_2)
  have s6: "step ?c6 ?c7" using step.pop_load [of ?c6] by simp
  have s7: "step ?c7 ?c8" using step.pop_store [of ?c7 1] by simp
  have s8: "step ?c8 ?c9" using step.pop_load_top [of ?c8 1] by simp
  have s9: "step ?c9 ?c10" using step.pop_read [of ?c9 1 0] by (simp add: slot_def)
  have s10: "step ?c10 ?c11" using step.pop_take [of ?c10 1 0 8] by simp
  have r0: "reachable 1 ?c0" using reach_initial [of 1] by (simp only: i)
  have r1: "reachable 1 ?c1" using r0 s0 by (rule reach_step)
  have r2: "reachable 1 ?c2" using r1 s1 by (rule reach_step)
  have r3: "reachable 1 ?c3" using r2 s2 by (rule reach_step)
  have r4: "reachable 1 ?c4" using r3 s3 by (rule reach_step)
  have r5: "reachable 1 ?c5" using r4 s4 by (rule reach_step)
  have r6: "reachable 1 ?c6" using r5 s5 by (rule reach_step)
  have t7: "step\<^sup>*\<^sup>* ?c6 ?c7" using s6 by (rule r_into_rtranclp)
  have t8: "step\<^sup>*\<^sup>* ?c6 ?c8" using t7 s7 by (rule rtranclp.rtrancl_into_rtrancl)
  have t9: "step\<^sup>*\<^sup>* ?c6 ?c9" using t8 s8 by (rule rtranclp.rtrancl_into_rtrancl)
  have t10: "step\<^sup>*\<^sup>* ?c6 ?c10" using t9 s9 by (rule rtranclp.rtrancl_into_rtrancl)
  have t11: "step\<^sup>*\<^sup>* ?c6 ?c11" using t10 s10 by (rule rtranclp.rtrancl_into_rtrancl)
  from r6 t11 show ?thesis unfolding two_pushed_def one_popped_def by (rule conjI)
qed

lemma reachable_steps:
  assumes "reachable k c" "step\<^sup>*\<^sup>* c c'"
  shows "reachable k c'"
  using assms(2,1) by (induction rule: rtranclp_induct) (auto intro: reach_step)
section \<open>Claims about the LZ codec\<close>

text \<open>
  Claim C1 (round trip). For every byte sequence \<open>x\<close>, \<^verbatim>\<open>lzCompressTokens(x)\<close> returns a
  token stream, and \<^verbatim>\<open>lzDecompressTokens\<close> applied to that stream with expected size
  \<open>len(x)\<close> returns \<open>x\<close> and no error.
\<close>

theorem lz_round_trip:
  "\<exists>tokens. lzCompressTokens x = Some tokens \<and> lzDecompressTokens tokens (int (length x)) = Inr x"
proof -
  from lzRun_covers [of x] obtain ts
    where "lzRun x = Some (concat (map emit ts), ts)" "covers x 0 ts" by blast
  then show ?thesis using roundtrip_tokens by (simp add: lzCompressTokens_def)
qed

theorem lz_round_trip_witness:
  "lzCompressTokens [0, 0, 0, 0, 0] = Some [0, 0, 1, 1, 0, 4] \<and>
   lzDecompressTokens [0, 0, 1, 1, 0, 4] 5 = Inr [0, 0, 0, 0, 0]"
  using lz_round_trip [of "[0, 0, 0, 0, 0]"] by (simp add: lzCompressTokens_def ex5)

text \<open>
  Claim C2 says that every match the encoder emits has \<open>offset \<ge> matchLen\<close>. The code
  does not bound \<open>matchLen\<close> by \<open>offset\<close>: the extension loop (lines 55-60) stops at the end
  of the input, at 255, or at a mismatch. On five zero bytes the encoder emits one literal
  and then a match with offset 1 and length 4.
\<close>

theorem lz_overlap_counterexample:
  "lzEmitted [0, 0, 0, 0, 0] = Some [Literal 0, Match 1 4] \<and> \<not> (1::int) \<ge> 4"
  by (simp add: lzEmitted_def ex5)

text \<open>
  Claim C2, amended. Every match token the encoder emits has an offset of at least 1, at
  most the number of bytes encoded before it, and below the window size 65535; its length
  is between 4 and 255. (The offset may be smaller than the length.)
\<close>

theorem lz_match_bounds:
  assumes "lzEmitted x = Some toks" "k < length toks" "toks ! k = Match offset matchLen"
  shows "1 \<le> offset \<and> offset \<le> sum_list (map tokenSpan (take k toks)) \<and> offset < lzWindowSize \<and>
         lzMinMatch \<le> matchLen \<and> matchLen \<le> lzMaxMatch"
proof -
  from lzRun_covers [of x] assms(1) have "covers x 0 toks"
    by (auto simp: lzEmitted_def)
  from covers_match [OF this assms(2,3)] show ?thesis by (simp add: lzMinMatch_def)
qed

theorem lz_match_bounds_witness:
  "lzEmitted [0, 0, 0, 0, 0] = Some [Literal 0, Match 1 4] \<and>
   1 \<le> (1::int) \<and> (1::int) \<le> sum_list (map tokenSpan (take 1 [Literal 0, Match 1 4])) \<and>
   (1::int) < lzWindowSize \<and> lzMinMatch \<le> 4 \<and> 4 \<le> lzMaxMatch"
proof -
  have e: "lzEmitted [0, 0, 0, 0, 0] = Some [Literal 0, Match 1 4]"
    by (simp add: lzEmitted_def ex5)
  from lz_match_bounds [OF e, of 1 1 4] e show ?thesis by simp
qed

text \<open>
  Claim C3 says that on 1024 zero bytes the token stream begins with exactly four literals,
  followed by matches with offset 1 and length 255. The encoder looks for a match from
  position 1 on: the second token is already a match, and the third has offset 255.
\<close>

theorem lz_zeros_counterexample:
  "map_option (take 3) (lzEmitted (replicate 1024 0)) = Some [Literal 0, Match 1 255, Match 255 255] \<and>
   map_option (take 4) (lzEmitted (replicate 1024 0)) \<noteq>
     Some [Literal 0, Literal 0, Literal 0, Literal 0]"
  by (simp add: lzEmitted_def zeros_run)

text \<open>
  Claim C3, amended. On 1024 zero bytes the encoder emits one literal, then four matches of
  length 255 with offsets 1, 255, 255 and 255 (1020 bytes matched), then three literals;
  decoding that token stream with expected size 1024 yields 1024 zero bytes.
\<close>

theorem lz_zeros_tokens:
  "lzEmitted (replicate 1024 0) =
     Some [Literal 0, Match 1 255, Match 255 255, Match 255 255, Match 255 255,
           Literal 0, Literal 0, Literal 0] \<and>
   lzCompressTokens (replicate 1024 0) =
     Some [0, 0, 1, 1, 0, 255, 1, 255, 0, 255, 1, 255, 0, 255, 1, 255, 0, 255, 0, 0, 0, 0, 0, 0] \<and>
   lzDecompressTokens
     [0, 0, 1, 1, 0, 255, 1, 255, 0, 255, 1, 255, 0, 255, 1, 255, 0, 255, 0, 0, 0, 0, 0, 0] 1024 =
     Inr (replicate 1024 0)"
proof -
  let ?ts = "[Literal 0, Match 1 255, Match 255 255, Match 255 255, Match 255 255,
              Literal 0, Literal 0, Literal 0]"
  from lzRun_covers [of "replicate 1024 0"] have "covers (replicate 1024 0) 0 ?ts"
    by (simp only: zeros_run) auto
  from roundtrip_tokens [OF this] show ?thesis
    by (simp add: lzEmitted_def lzCompressTokens_def zeros_run)
qed

text \<open>
  Claim C6 (match offset check). When the decoder reads a match token with output \<open>out\<close>,
  it fails with the invalid-match-offset error exactly when the decoded offset is 0 or
  exceeds \<open>len(out)\<close>; otherwise the token appends \<open>length\<close> bytes and decoding goes on
  with the next token. In particular the stream \<open>[0x01, 0x00, 0x00, 0x05]\<close>, decoded from
  the empty output, yields that error.
\<close>

theorem match_offset_check:
  fixes lo hi l :: byte
  shows "(uint lo OR push_bit 8 (uint hi) = 0 \<or> uint lo OR push_bit 8 (uint hi) > int (length out) \<longrightarrow>
          decLoop (0x01 # lo # hi # l # rest) out =
            Inl (InvalidMatchOffset (uint lo OR push_bit 8 (uint hi)) (int (length out)))) \<and>
         (\<not> (uint lo OR push_bit 8 (uint hi) = 0 \<or> uint lo OR push_bit 8 (uint hi) > int (length out)) \<longrightarrow>
          (\<exists>out'. length out' = length out + unat l \<and> take (length out) out' = out \<and>
                  decLoop (0x01 # lo # hi # l # rest) out = decLoop rest out')) \<and>
         decLoop [0x01, 0x00, 0x00, 0x05] [] = Inl (InvalidMatchOffset 0 0) \<and>
         (0 \<le> n \<longrightarrow> lzDecompressTokens [0x01, 0x00, 0x00, 0x05] n = Inl (InvalidMatchOffset 0 0))"
proof -
  let ?off = "uint lo OR push_bit 8 (uint hi)"
  have nonneg: "0 \<le> ?off" by simp
  have bad: "decLoop (0x01 # lo # hi # l # rest) out = Inl (InvalidMatchOffset ?off (int (length out)))"
    if "?off = 0 \<or> ?off > int (length out)"
    using that by (auto simp: Let_def)
  have good: "\<exists>out'. length out' = length out + unat l \<and> take (length out) out' = out \<and>
                  decLoop (0x01 # lo # hi # l # rest) out = decLoop rest out'"
    if ok: "\<not> (?off = 0 \<or> ?off > int (length out))"
  proof -
    from ok nonneg have r: "0 < ?off" "?off \<le> int (length out)" by linarith+
    from copyMatch_total [of "int (length out) - ?off" 0 out "uint l"] r
    obtain out' where o: "copyMatch out (int (length out) - ?off) 0 (uint l) = Some out'"
      "int (length out') = int (length out) + max 0 (uint l - 0)" "take (length out) out' = out"
      by auto
    have "length out' = length out + unat l"
    proof -
      have "int (length out') = int (length out + unat l)" using o(2) by simp
      then show ?thesis by (simp only: of_nat_eq_iff)
    qed
    moreover have "decLoop (0x01 # lo # hi # l # rest) out = decLoop rest out'"
      using r o(1) by (simp add: Let_def)
    ultimately show ?thesis using o(3) by blast
  qed
  have ex: "decLoop [0x01, 0x00, 0x00, 0x05] [] = Inl (InvalidMatchOffset 0 0)"
    by simp
  have "lzDecompressTokens [0x01, 0x00, 0x00, 0x05] n = Inl (InvalidMatchOffset 0 0)" if "0 \<le> n"
    using that by (simp add: lzDecompressTokens_def)
  with bad good ex show ?thesis by blast
qed

theorem match_offset_check_witness:
  "decLoop [0x01, 0x01, 0x00, 0x02] [7] = Inr [7, 7, 7] \<and>
   decLoop [0x01, 0x02, 0x00, 0x02] [7] = Inl (InvalidMatchOffset 2 1) \<and>
   lzDecompressTokens [0x01, 0x00, 0x00, 0x05] 0 = Inl (InvalidMatchOffset 0 0)"
proof -
  have "decLoop [0x01, 0x01, 0x00, 0x02] [7] = Inr [7, 7, 7]"
    by (simp add: copyMatch.simps at_def)
  then show ?thesis
    using match_offset_check [of 2 0 "[7]" 2 "[]" 0] by simp
qed

text \<open>
  Claim C7 (the encoder is total). For every input, \<^verbatim>\<open>lzCompressTokens\<close> returns a token
  stream. In the model every read of \<^verbatim>\<open>input\<close> and of \<^verbatim>\<open>table\<close> is checked (\<open>at\<close>), and an
  index out of range gives \<open>None\<close>; the loops are total functions (their termination
  is proved where they are defined).
\<close>

theorem lz_compress_total: "\<exists>tokens. lzCompressTokens x = Some tokens"
  using lzRun_covers [of x] by (auto simp: lzCompressTokens_def)

theorem lz_compress_total_witness:
  "\<exists>tokens. lzCompressTokens [1, 2, 3] = Some tokens"
  using lz_compress_total [of "[1, 2, 3]"] .


section \<open>Claims about the container header\<close>

text \<open>
  Claim C5 (header round trip). For every header whose file name has at most 65535 bytes
  and whose size table has \<open>NumBlocks\<close> entries, \<^verbatim>\<open>WriteHeader\<close> succeeds, and
  \<^verbatim>\<open>ReadHeader\<close> on the bytes written (followed by any payload) succeeds, returns the
  same header and leaves the reader at the payload.
\<close>

theorem header_round_trip:
  assumes "length (Filename h) \<le> 65535" "length (BlockCompSizes h) = unat (NumBlocks h)"
  shows "\<exists>bytes. WriteHeader [] h = (bytes, None) \<and> ReadHeader (bytes @ payload) = Inr (h, payload)"
proof -
  let ?nl = "of_nat (length (Filename h)) :: 16 word"
  let ?tab = "concat (map (leBytes 8) (BlockCompSizes h))"
  let ?bytes = "magic @ leBytes 2 ?nl @ leBytes 8 (OriginalSize h) @ Filename h @
                leBytes 4 (BlockSize h) @ leBytes 8 (NumBlocks h) @ ?tab"
  have cnt: "(of_nat (length (BlockCompSizes h)) :: 64 word) = NumBlocks h"
    using assms(2) by simp
  have ws: "writeSizes w (BlockCompSizes h) 0 (NumBlocks h) = Some (w @ ?tab)" for w
    using writeSizes_spec [OF assms(2), of 0 w] by simp
  have wr: "WriteHeader [] h = (?bytes, None)"
    using assms(1) cnt by (simp add: WriteHeader_def Let_def ws)
  have nl: "unat ?nl = length (Filename h)"
    using assms(1) by (simp add: unat_of_nat)
  have w16: "(leWord (leBytes 2 ?nl) :: 16 word) = ?nl" by (rule leWord_leBytes_id) simp
  have w64: "(leWord (leBytes 8 w) :: 64 word) = w" for w by (rule leWord_leBytes_id) simp
  have w32: "(leWord (leBytes 4 w) :: 32 word) = w" for w by (rule leWord_leBytes_id) simp
  have rs: "readSizes (?tab @ payload) (replicate (unat (NumBlocks h)) 0) 0 (NumBlocks h) =
            Inr (BlockCompSizes h, payload)"
    using readSizes_spec [OF assms(2), of 0 _ payload] by simp
  have r1: "readFull 4 (?bytes @ payload) = Inr (magic, leBytes 2 ?nl @ leBytes 8 (OriginalSize h) @ Filename h @
                leBytes 4 (BlockSize h) @ leBytes 8 (NumBlocks h) @ ?tab @ payload)"
    using readFull_append [of magic 4] by (simp add: magic_def)
  have "ReadHeader (?bytes @ payload) = Inr (h, payload)"
    unfolding ReadHeader_def r1
    by (simp add: readFull_append w16 w64 w32 nl rs Let_def)
  with wr show ?thesis by blast
qed

theorem header_round_trip_witness:
  "WriteHeader [] \<lparr>Filename = [0x61], OriginalSize = 5, BlockSize = 4096, NumBlocks = 1,
                    BlockCompSizes = [6]\<rparr> =
     ([0x50, 0x43, 0x5A, 0x32, 1, 0, 5, 0, 0, 0, 0, 0, 0, 0, 0x61, 0, 0x10, 0, 0,
       1, 0, 0, 0, 0, 0, 0, 0, 6, 0, 0, 0, 0, 0, 0, 0], None) \<and>
   ReadHeader [0x50, 0x43, 0x5A, 0x32, 1, 0, 5, 0, 0, 0, 0, 0, 0, 0, 0x61, 0, 0x10, 0, 0,
       1, 0, 0, 0, 0, 0, 0, 0, 6, 0, 0, 0, 0, 0, 0, 0, 0xFF, 9] =
     Inr (\<lparr>Filename = [0x61], OriginalSize = 5, BlockSize = 4096, NumBlocks = 1,
            BlockCompSizes = [6]\<rparr>, [0xFF, 9])"
proof -
  let ?h = "\<lparr>Filename = [0x61], OriginalSize = 5, BlockSize = 4096, NumBlocks = 1,
                    BlockCompSizes = [6]\<rparr>"
  have w: "WriteHeader [] ?h =
     ([0x50, 0x43, 0x5A, 0x32, 1, 0, 5, 0, 0, 0, 0, 0, 0, 0, 0x61, 0, 0x10, 0, 0,
       1, 0, 0, 0, 0, 0, 0, 0, 6, 0, 0, 0, 0, 0, 0, 0], None)"
    by (simp add: WriteHeader_def writeSizes.simps at_def magic_def leBytes_8 leBytes_4 leBytes_2 Let_def)
  have h1: "length (Filename ?h) \<le> 65535" by simp
  have h2: "length (BlockCompSizes ?h) = unat (NumBlocks ?h)" by simp
  from header_round_trip [OF h1 h2, of "[0xFF, 9]"] obtain bytes
    where b: "WriteHeader [] ?h = (bytes, None)" "ReadHeader (bytes @ [0xFF, 9]) = Inr (?h, [0xFF, 9])"
    by blast
  from b(1) have "bytes = fst (WriteHeader [] ?h)" by simp
  then have "bytes = [0x50, 0x43, 0x5A, 0x32, 1, 0, 5, 0, 0, 0, 0, 0, 0, 0, 0x61, 0, 0x10, 0, 0,
       1, 0, 0, 0, 0, 0, 0, 0, 6, 0, 0, 0, 0, 0, 0, 0]" by (simp only: w fst_conv)
  with b(2) have "ReadHeader ([0x50, 0x43, 0x5A, 0x32, 1, 0, 5, 0, 0, 0, 0, 0, 0, 0, 0x61, 0, 0x10, 0, 0,
       1, 0, 0, 0, 0, 0, 0, 0, 6, 0, 0, 0, 0, 0, 0, 0] @ [0xFF, 9]) = Inr (?h, [0xFF, 9])" by (simp only:)
  then have "ReadHeader [0x50, 0x43, 0x5A, 0x32, 1, 0, 5, 0, 0, 0, 0, 0, 0, 0, 0x61, 0, 0x10, 0, 0,
       1, 0, 0, 0, 0, 0, 0, 0, 6, 0, 0, 0, 0, 0, 0, 0, 0xFF, 9] = Inr (?h, [0xFF, 9])"
    by (simp only: append_Cons append_Nil)
  with w show ?thesis by (simp only: simp_thms)
qed


section \<open>Claim about the per-block mode choice\<close>

text \<open>
  Claim C4 (mode rule, no inflation). For every block \<open>buf\<close> of length \<open>n\<close>, the encoded
  block is the tag \<open>0x00\<close> followed by the LZ tokens when \<open>len(tokens) < n\<close>, and the tag
  \<open>0xFF\<close> followed by the raw bytes otherwise (ties included); its length, tag included,
  is at most \<open>1 + n\<close>.
\<close>

theorem block_mode_rule:
  "\<exists>tokens enc. lzCompressTokens buf = Some tokens \<and> encodeBlock buf = Some enc \<and>
     (length tokens < length buf \<longrightarrow> enc = 0x00 # tokens) \<and>
     (\<not> length tokens < length buf \<longrightarrow> enc = 0xFF # buf) \<and>
     length enc \<le> 1 + length buf"
proof -
  from lzRun_covers [of buf] obtain tokens where t: "lzCompressTokens buf = Some tokens"
    by (auto simp: lzCompressTokens_def)
  show ?thesis
  proof (cases "length tokens < length buf")
    case True
    then have "encodeBlock buf = Some (0x00 # tokens)" using t by (simp add: encodeBlock_def)
    with t True show ?thesis by simp
  next
    case False
    then have "encodeBlock buf = Some (0xFF # buf)" using t by (simp add: encodeBlock_def)
    with t False show ?thesis by simp
  qed
qed

theorem block_mode_rule_witness:
  "encodeBlock (replicate 1024 0) =
     Some [0, 0, 0, 1, 1, 0, 255, 1, 255, 0, 255, 1, 255, 0, 255, 1, 255, 0, 255, 0, 0, 0, 0, 0, 0] \<and>
   encodeBlock [0, 0, 0, 0, 0] = Some [0xFF, 0, 0, 0, 0, 0]"
proof -
  have a: "lzCompressTokens (replicate 1024 0) =
    Some [0, 0, 1, 1, 0, 255, 1, 255, 0, 255, 1, 255, 0, 255, 1, 255, 0, 255, 0, 0, 0, 0, 0, 0]"
    by (simp add: lzCompressTokens_def zeros_run)
  have b: "lzCompressTokens [0, 0, 0, 0, 0] = Some [0, 0, 1, 1, 0, 4]"
    by (simp add: lzCompressTokens_def ex5)
  from block_mode_rule [of "replicate 1024 0"] block_mode_rule [of "[0, 0, 0, 0, 0]"] a b
  show ?thesis by auto
qed


section \<open>Claim about the BSP partition\<close>

text \<open>
  Claim C8 (static partition). For \<open>numBlocks \<ge> 1\<close> and any requested thread count, the
  worker count is \<open>T = min (max threads 1) numBlocks\<close>, the chunk size is the ceiling of
  \<open>numBlocks / T\<close> (the least \<open>chunk\<close> with \<open>numBlocks \<le> T * chunk\<close>), worker \<open>w\<close> visits
  exactly the indices from \<open>w * chunk\<close> up to, not including,
  \<open>min ((w + 1) * chunk) numBlocks\<close>, these sets are pairwise disjoint, their union over
  the workers \<open>0 \<le> w < T\<close> is \<open>[0, numBlocks)\<close>, and so every block index belongs to
  exactly one worker. The bounds a worker computes stay below \<open>2 * numBlocks\<close>, so Go's
  64-bit \<^verbatim>\<open>int\<close> does not wrap for any number of blocks that fits in memory.
\<close>

theorem bsp_partition:
  assumes "1 \<le> numBlocks"
  shows "let T = bspThreads threads numBlocks; chunk = bspChunkSize numBlocks T in
         T = min (max threads 1) numBlocks \<and>
         numBlocks \<le> T * chunk \<and> T * (chunk - 1) < numBlocks \<and>
         (\<forall>w. 0 \<le> w \<and> w < T \<longrightarrow> 0 \<le> w * chunk \<and> w * chunk + chunk < 2 * numBlocks) \<and>
         (\<forall>w. 0 \<le> w \<and> w < T \<longrightarrow>
              bspOwned numBlocks threads w = {w * chunk ..< min ((w + 1) * chunk) numBlocks}) \<and>
         (\<forall>w w'. 0 \<le> w \<and> w < T \<and> 0 \<le> w' \<and> w' < T \<and> w \<noteq> w' \<longrightarrow>
              bspOwned numBlocks threads w \<inter> bspOwned numBlocks threads w' = {}) \<and>
         (\<Union>w\<in>{0..<T}. bspOwned numBlocks threads w) = {0..<numBlocks} \<and>
         (\<forall>idx. 0 \<le> idx \<and> idx < numBlocks \<longrightarrow>
              (\<exists>!w. 0 \<le> w \<and> w < T \<and> idx \<in> bspOwned numBlocks threads w))"
proof -
  define T where "T = bspThreads threads numBlocks"
  define chunk where "chunk = bspChunkSize numBlocks T"
  have T: "T = min (max threads 1) numBlocks" by (simp add: T_def bspThreads_eq)
  then have Tr: "1 \<le> T" "T \<le> numBlocks" using assms by auto
  note ch = bspChunkSize_props [OF Tr, folded chunk_def]
  have own: "bspOwned numBlocks threads w = {w * chunk ..< min ((w + 1) * chunk) numBlocks}"
    if "0 \<le> w" for w
    using bspOwned_eq [OF assms that, of threads] by (simp add: T_def chunk_def)
  have small: "0 \<le> w * chunk \<and> w * chunk + chunk < 2 * numBlocks" if "0 \<le> w" "w < T" for w
  proof -
    have "w + 1 \<le> T" using that by simp
    then have "(w + 1) * chunk \<le> T * chunk" using ch(1) by (intro mult_right_mono) simp_all
    moreover have "(w + 1) * chunk = w * chunk + chunk" by (simp add: algebra_simps)
    moreover have "T * (chunk - 1) = T * chunk - T" by (simp add: algebra_simps)
    moreover have "0 \<le> w * chunk" using that(1) ch(1) by simp
    ultimately show ?thesis using ch(3) Tr(2) by linarith
  qed
  have uniq: "w = idx div chunk" if "0 \<le> w" "idx \<in> bspOwned numBlocks threads w" for w idx
  proof -
    from that have "idx \<in> {w * chunk ..< min ((w + 1) * chunk) numBlocks}" by (simp only: own)
    then have "w * chunk \<le> idx" "idx < (w + 1) * chunk" by simp_all
    with ch(1) show ?thesis by (rule chunk_index)
  qed
  have cover: "0 \<le> idx div chunk \<and> idx div chunk < T \<and> idx \<in> bspOwned numBlocks threads (idx div chunk)"
    if "0 \<le> idx" "idx < numBlocks" for idx
  proof -
    let ?w = "idx div chunk"
    have c0: "0 < chunk" using ch(1) by simp
    have w0: "0 \<le> ?w" using that(1) c0 by (simp add: pos_imp_zdiv_nonneg_iff)
    have dm: "idx = ?w * chunk + idx mod chunk" by simp
    have md: "0 \<le> idx mod chunk" "idx mod chunk < chunk" using c0 by simp_all
    have lo: "?w * chunk \<le> idx" using dm md(1) by linarith
    have "(?w + 1) * chunk = ?w * chunk + chunk" by (simp add: algebra_simps)
    with dm md(2) have hi: "idx < (?w + 1) * chunk" by linarith
    have "?w < T"
    proof (rule ccontr)
      assume "\<not> ?w < T"
      then have "T \<le> ?w" by simp
      then have "T * chunk \<le> ?w * chunk" using c0 by (simp add: mult_right_mono)
      with lo ch(2) that(2) show False by linarith
    qed
    with w0 lo hi that show ?thesis by (simp add: own)
  qed
  have disj: "bspOwned numBlocks threads w \<inter> bspOwned numBlocks threads w' = {}"
    if "0 \<le> w" "0 \<le> w'" "w \<noteq> w'" for w w'
  proof (rule ccontr)
    assume "bspOwned numBlocks threads w \<inter> bspOwned numBlocks threads w' \<noteq> {}"
    then obtain idx where i: "idx \<in> bspOwned numBlocks threads w" "idx \<in> bspOwned numBlocks threads w'"
      by blast
    from uniq [OF that(1) i(1)] uniq [OF that(2) i(2)] that(3) show False by simp
  qed
  have un: "(\<Union>w\<in>{0..<T}. bspOwned numBlocks threads w) = {0..<numBlocks}"
  proof (intro equalityI subsetI)
    fix idx assume "idx \<in> (\<Union>w\<in>{0..<T}. bspOwned numBlocks threads w)"
    then obtain w where w: "0 \<le> w" "w < T" "idx \<in> bspOwned numBlocks threads w" by auto
    have "0 \<le> w * chunk" using w(1) ch(1) by simp
    moreover from w(3) have "idx \<in> {w * chunk ..< min ((w + 1) * chunk) numBlocks}"
      by (simp only: own [OF w(1)])
    ultimately show "idx \<in> {0..<numBlocks}" by simp
  next
    fix idx assume "idx \<in> {0..<numBlocks}"
    then have "0 \<le> idx" "idx < numBlocks" by simp_all
    from cover [OF this] have "idx div chunk \<in> {0..<T}" "idx \<in> bspOwned numBlocks threads (idx div chunk)"
      by simp_all
    then show "idx \<in> (\<Union>w\<in>{0..<T}. bspOwned numBlocks threads w)" by (rule UN_I)
  qed
  have ex1: "\<exists>!w. 0 \<le> w \<and> w < T \<and> idx \<in> bspOwned numBlocks threads w"
    if "0 \<le> idx" "idx < numBlocks" for idx
  proof (rule ex1I [of _ "idx div chunk"])
    show "0 \<le> idx div chunk \<and> idx div chunk < T \<and> idx \<in> bspOwned numBlocks threads (idx div chunk)"
      using cover [OF that] .
  next
    fix w assume "0 \<le> w \<and> w < T \<and> idx \<in> bspOwned numBlocks threads w"
    then have "0 \<le> w" "idx \<in> bspOwned numBlocks threads w" by simp_all
    then show "w = idx div chunk" by (rule uniq)
  qed
  show ?thesis
    unfolding Let_def T_def [symmetric] chunk_def [symmetric]
  proof (intro conjI allI impI)
    show "T = min (max threads 1) numBlocks" by (rule T)
    show "numBlocks \<le> T * chunk" by (rule ch(2))
    show "T * (chunk - 1) < numBlocks" by (rule ch(3))
    show "(\<Union>w\<in>{0..<T}. bspOwned numBlocks threads w) = {0..<numBlocks}" by (rule un)
  next
    fix w assume "0 \<le> w \<and> w < T"
    then show "bspOwned numBlocks threads w = {w * chunk ..< min ((w + 1) * chunk) numBlocks}"
      by (simp only: own)
  next
    fix w assume "0 \<le> w \<and> w < T"
    then have "0 \<le> w * chunk \<and> w * chunk + chunk < 2 * numBlocks" by (intro small) simp_all
    then show "0 \<le> w * chunk" "w * chunk + chunk < 2 * numBlocks" by simp_all
  next
    fix w w' assume "0 \<le> w \<and> w < T \<and> 0 \<le> w' \<and> w' < T \<and> w \<noteq> w'"
    then show "bspOwned numBlocks threads w \<inter> bspOwned numBlocks threads w' = {}"
      by (intro disj) simp_all
  next
    fix idx assume "0 \<le> idx \<and> idx < numBlocks"
    then show "\<exists>!w. 0 \<le> w \<and> w < T \<and> idx \<in> bspOwned numBlocks threads w"
      by (intro ex1) simp_all
  qed
qed

theorem bsp_partition_witness:
  "bspThreads 8 5 = 5 \<and> bspThreads 4 5 = 4 \<and> bspChunkSize 5 4 = 2 \<and>
   bspOwned 5 4 0 = {0..<2} \<and> bspOwned 5 4 1 = {2..<4} \<and> bspOwned 5 4 2 = {4..<5} \<and>
   bspOwned 5 4 3 = {} \<and>
   (\<Union>w\<in>{0..<4}. bspOwned 5 4 w) = {0..<5}"
proof -
  have a: "bspThreads 8 5 = 5" "bspThreads 4 5 = 4" by (simp_all add: bspThreads_def)
  have b: "bspChunkSize 5 4 = 2" by (simp add: bspChunkSize_def quo_def rem_def)
  have c: "bspOwned 5 4 0 = {0..<2}" "bspOwned 5 4 1 = {2..<4}" "bspOwned 5 4 2 = {4..<5}"
    "bspOwned 5 4 3 = {}"
    by (simp_all add: bspOwned_def bspRange_def a b)
  have "(1::int) \<le> 5" by simp
  from bsp_partition [OF this, of 4]
  have "(\<Union>w\<in>{0..<bspThreads 4 5}. bspOwned 5 4 w) = {0..<5}"
    unfolding Let_def by blast
  with a b c show ?thesis by (simp only: simp_thms)
qed


section \<open>Claim about empty headers\<close>

text \<open>
  Claim C10 (empty-file shortcut). Whenever the header read from a container has
  \<open>OriginalSize = 0\<close> or \<open>NumBlocks = 0\<close>, each of the three decompressors returns no
  error and leaves an empty output file, whatever the other field and the rest of the
  container are. So the container with \<open>original_size = 5\<close> and \<open>num_blocks = 0\<close>
  decompresses to the empty file without an error.
\<close>

theorem empty_header_accepted:
  assumes "ReadHeader compressed = Inr (h, rest)" "OriginalSize h = 0 \<or> NumBlocks h = 0"
  shows "SequentialDecompressFile compressed = (Some [], None) \<and>
         BSPDecompressFile compressed threads = (Some [], None) \<and>
         WorkStealingDecompressFile compressed threads = (Some [], None)"
  using assms
  by (simp add: SequentialDecompressFile_def BSPDecompressFile_def WorkStealingDecompressFile_def)

theorem empty_header_accepted_witness:
  "ReadHeader [0x50, 0x43, 0x5A, 0x32, 0, 0, 5, 0, 0, 0, 0, 0, 0, 0, 0, 0x10, 0, 0,
               0, 0, 0, 0, 0, 0, 0, 0] =
     Inr (\<lparr>Filename = [], OriginalSize = 5, BlockSize = 4096, NumBlocks = 0, BlockCompSizes = []\<rparr>, []) \<and>
   SequentialDecompressFile [0x50, 0x43, 0x5A, 0x32, 0, 0, 5, 0, 0, 0, 0, 0, 0, 0, 0, 0x10, 0, 0,
               0, 0, 0, 0, 0, 0, 0, 0] = (Some [], None) \<and>
   BSPDecompressFile [0x50, 0x43, 0x5A, 0x32, 0, 0, 5, 0, 0, 0, 0, 0, 0, 0, 0, 0x10, 0, 0,
               0, 0, 0, 0, 0, 0, 0, 0] 4 = (Some [], None) \<and>
   WorkStealingDecompressFile [0x50, 0x43, 0x5A, 0x32, 0, 0, 5, 0, 0, 0, 0, 0, 0, 0, 0, 0x10, 0, 0,
               0, 0, 0, 0, 0, 0, 0, 0] 4 = (Some [], None)"
proof -
  let ?h = "\<lparr>Filename = [], OriginalSize = 5, BlockSize = 4096, NumBlocks = 0, BlockCompSizes = []\<rparr>"
  have "OriginalSize ?h = 0 \<or> NumBlocks ?h = 0" by simp
  from empty_header_accepted [OF malformed_header this, of 4] malformed_header
  show ?thesis by (simp only: simp_thms)
qed


section \<open>Claim about the work-stealing deque\<close>

text \<open>
  Claim C9 says, among other things, that \<^verbatim>\<open>bottom\<close> never decreases during a run.
  \<^verbatim>\<open>PopBottom\<close> stores \<open>b - 1\<close> into \<^verbatim>\<open>bottom\<close> (line 62) and restores \<open>b\<close> only when it
  finds the deque empty or takes its last task. In the run without thieves in which the
  owner pushes two tasks and pops one, \<^verbatim>\<open>bottom\<close> is 2 before the pop and 1 after it.
\<close>

theorem deque_bottom_counterexample:
  "reachable 1 two_pushed \<and> step\<^sup>*\<^sup>* two_pushed one_popped \<and>
   \<not> d_bottom two_pushed \<le> d_bottom one_popped"
  using example_run by (simp add: two_pushed_def one_popped_def)

text \<open>
  Claim C9, amended. In every interleaving of the owner's \<^verbatim>\<open>PushBottom\<close> and
  \<^verbatim>\<open>PopBottom\<close> calls with the \<^verbatim>\<open>Steal\<close> calls of any number of thieves, on a deque that
  never exceeds its capacity, and at every moment of the run:
  \<^item> no task has been returned more often than it was pushed, so no task is returned twice
    when the pushed tasks are distinct;
  \<^item> whenever the owner is between two calls, the pushed tasks are the returned tasks
    together with the tasks at the positions from \<^verbatim>\<open>top\<close> to \<^verbatim>\<open>bottom\<close> of the deque: a
    pushed task is either returned once or still in the deque;
  \<^item> every index \<^verbatim>\<open>j & mask\<close> is inside \<^verbatim>\<open>tasks\<close>;
  \<^item> \<^verbatim>\<open>top\<close> never decreases.
  (\<^verbatim>\<open>bottom\<close> is not monotone: \<^verbatim>\<open>PopBottom\<close> lowers it.)
\<close>

theorem deque_returns_once:
  assumes "reachable k c"
  shows "mset (returned c) \<subseteq># mset (pushed c) \<and>
         (distinct (pushed c) \<longrightarrow> distinct (returned c)) \<and>
         (owner c = OIdle \<longrightarrow>
            mset (pushed c) = mset (returned c) + mset (map (slot c) [d_top c ..< d_bottom c])) \<and>
         (\<forall>j. j AND d_mask c < length (d_tasks c)) \<and>
         (\<forall>c'. step\<^sup>*\<^sup>* c c' \<longrightarrow> d_top c \<le> d_top c')"
proof -
  from reachable_inv [OF assms] have len: "length (d_tasks c) = 2 ^ k" and msk: "d_mask c = 2 ^ k - 1"
    and ms: "mset (pushed c) = mset (returned c) + mset (content c) + inflight c"
    by (simp_all add: dq_inv_def)
  have sub: "mset (returned c) \<subseteq># mset (pushed c)" by (simp add: ms add.assoc)
  have idle: "mset (pushed c) = mset (returned c) + mset (map (slot c) [d_top c ..< d_bottom c])"
    if "owner c = OIdle"
    using ms that by (simp add: content_def inflight_def logicalBottom_def)
  have rng: "j AND d_mask c < length (d_tasks c)" for j
    by (simp only: len msk masked_index_less)
  from sub idle rng distinct_of_submset [OF sub] steps_top_mono show ?thesis by blast
qed


theorem deque_returns_once_witness:
  "reachable 1 one_popped \<and>
   mset (returned one_popped) \<subseteq># mset (pushed one_popped) \<and>
   distinct (returned one_popped) \<and>
   mset (pushed one_popped) =
     mset (returned one_popped) + mset (map (slot one_popped) [d_top one_popped ..< d_bottom one_popped]) \<and>
   d_top two_pushed \<le> d_top one_popped"
proof -
  from example_run have r: "reachable 1 two_pushed" and s: "step\<^sup>*\<^sup>* two_pushed one_popped"
    by simp_all
  from r s have r': "reachable 1 one_popped" by (rule reachable_steps)
  have d: "distinct (pushed one_popped)" "owner one_popped = OIdle"
    by (simp_all add: one_popped_def)
  from deque_returns_once [OF r'] d deque_returns_once [OF r] s r'
  show ?thesis by blast
qed

end
